theory Spec2Isabelle
  imports Complex_Main "HOL-Library.AList"
begin

section \<open>JavaScript values used by the chat server\<close>

text \<open>
  A \<^typ>\<open>string\<close> is a JavaScript string whose UTF-16 code units are all below 256, one
  \<^typ>\<open>char\<close> per code unit, so \<^term>\<open>length\<close> is \<open>String.length\<close>.
  \<open>toLowerCase\<close> maps \<open>A..Z\<close> and the capital letters of Latin-1 (\<open>0xC0..0xDE\<close>
  without \<open>0xD7\<close>) to the letter 32 code units later.
\<close>

definition toLowerCaseChar :: "char \<Rightarrow> char" where
  "toLowerCaseChar c =
     (let n = (of_char c :: nat) in
      if (65 \<le> n \<and> n \<le> 90) \<or> (192 \<le> n \<and> n \<le> 222 \<and> n \<noteq> 215)
      then char_of (n + 32) else c)"

definition toLowerCase :: "string \<Rightarrow> string" where
  "toLowerCase s = map toLowerCaseChar s"

definition startsWith :: "string \<Rightarrow> string \<Rightarrow> bool" where
  "startsWith s p = (take (length p) s = p)"

text \<open>\<open>s.includes(sub)\<close>: \<open>sub\<close> occurs in \<open>s\<close> as a contiguous substring.\<close>

fun includes_str :: "string \<Rightarrow> string \<Rightarrow> bool" where
  "includes_str [] sub = (sub = [])"
| "includes_str (c # cs) sub = (startsWith (c # cs) sub \<or> includes_str cs sub)"

text \<open>
  The white space of \<open>String.prototype.trim\<close> and of the regular expression class
  \<open>\s\<close>, among the code units below 256: TAB, LF, VT, FF, CR, SPACE and NBSP.
\<close>

definition isWhiteSpace :: "char \<Rightarrow> bool" where
  "isWhiteSpace c = ((of_char c :: nat) \<in> {9, 10, 11, 12, 13, 32, 160})"

definition trim :: "string \<Rightarrow> string" where
  "trim s = rev (dropWhile isWhiteSpace (rev (dropWhile isWhiteSpace s)))"

text \<open>\<open>c >= '0' && c <= '9'\<close> on a one-character string.\<close>

definition isDigit :: "char \<Rightarrow> bool" where
  "isDigit c = (48 \<le> (of_char c :: nat) \<and> (of_char c :: nat) \<le> 57)"

text \<open>
  A JavaScript \<open>Map\<close> is an association list in insertion order: \<open>get\<close> is
  \<^const>\<open>map_of\<close>, \<open>set\<close> is \<^const>\<open>AList.update\<close> (a key that is present keeps its
  place, a new key goes last), \<open>delete\<close> is \<^const>\<open>AList.delete\<close>, \<open>size\<close> is
  \<^const>\<open>length\<close>. A \<open>Set\<close> of strings is a list in insertion order.
\<close>

definition has :: "('k \<times> 'v) list \<Rightarrow> 'k \<Rightarrow> bool" where
  "has m k = (map_of m k \<noteq> None)"

definition set_add :: "'a \<Rightarrow> 'a list \<Rightarrow> 'a list" where
  "set_add x xs = (if x \<in> set xs then xs else xs @ [x])"

text \<open>A thrown \<open>Error\<close>, with its message.\<close>

datatype error = Error string

section \<open>The message repository\<close>

text \<open>
  \<open>MessageRepository\<close> keeps \<open>Message\<close> objects that are shared: the object stored in
  the index \<open>messages\<close> under its id is the very object pushed onto its parent's
  \<open>replies\<close> array. The model therefore has an explicit heap of message objects; a
  \<open>replies\<close> array holds references, and so does the index. \<open>next_ref\<close> is the address
  the next \<open>new\<close> object gets.

  The three values \<open>addMessage\<close> and \<open>editMessage\<close> read from the outside world
  (\<open>Date.now()\<close>, the formatted wall-clock time, and the string \<open>generateId()\<close> returns)
  are the fields of an \<open>env\<close>. The mutating operations run under the repository's lock
  from entry to \<open>finally\<close>; each is modelled as one atomic step, and the lock itself and
  the read-receipt counters are left out.
\<close>

type_synonym ref = nat

record messageEdit =
  text_e :: string
  timestamp_e :: int
  time_e :: string

record message =
  id_m :: string
  username :: string
  text_m :: string
  time :: string
  timestamp :: int
  room :: string
  edited :: bool
  editHistory :: "messageEdit list"
  deleted :: bool
  parentId :: "string option"
  replies :: "ref list"

record repository =
  heap :: "ref \<Rightarrow> message"
  next_ref :: ref
  messages :: "(string \<times> ref) list"
  messagesByRoom :: "(string \<times> string list) list"

record env =
  now :: int
  clock :: string
  generateId :: string

definition blank_message :: message where
  "blank_message =
     \<lparr>id_m = [], username = [], text_m = [], time = [], timestamp = 0, room = [],
      edited = False, editHistory = [], deleted = False, parentId = None, replies = []\<rparr>"

text \<open>The constructor: both maps empty, nothing allocated.\<close>

definition new_repository :: repository where
  "new_repository =
     \<lparr>heap = (\<lambda>_. blank_message), next_ref = 0, messages = [], messagesByRoom = []\<rparr>"

text \<open>An optional string is truthy when it is present and not empty.\<close>

definition truthy :: "string option \<Rightarrow> bool" where
  "truthy p = (case p of None \<Rightarrow> False | Some x \<Rightarrow> x \<noteq> [])"

text \<open>
  \<open>checkRep\<close>: the inner loop over \<open>editHistory\<close> throws when an entry is earlier than
  the one before it.
\<close>

fun chronological :: "messageEdit list \<Rightarrow> bool" where
  "chronological (a # b # rest) = (\<not> timestamp_e b < timestamp_e a \<and> chronological (b # rest))"
| "chronological _ = True"

text \<open>
  The outer loop of \<open>checkRep\<close> over the entries of \<open>messages\<close>, with the set \<open>ids\<close> of
  the keys seen so far. \<open>None\<close> is the normal return, \<open>Some e\<close> the error thrown.
\<close>

fun checkRep_loop :: "repository \<Rightarrow> string list \<Rightarrow> (string \<times> ref) list \<Rightarrow> error option" where
  "checkRep_loop s ids [] = None"
| "checkRep_loop s ids ((i, r) # rest) =
     (if i \<in> set ids then Some (Error ''Invariant violation: duplicate message ID'')
      else if timestamp (heap s r) \<le> 0 then Some (Error ''Invariant violation: invalid timestamp'')
      else if \<not> chronological (editHistory (heap s r))
        then Some (Error ''Invariant violation: edit history not chronologically ordered'')
      else if truthy (parentId (heap s r)) \<and> \<not> has (messages s) (the (parentId (heap s r)))
        then Some (Error ''Invariant violation: parent message does not exist'')
      else checkRep_loop s (i # ids) rest)"

definition checkRep :: "repository \<Rightarrow> error option" where
  "checkRep s = checkRep_loop s [] (messages s)"

text \<open>
  \<open>addMessage(username, text, room, parentId?)\<close>. The result is the new object's
  reference, or the error thrown; the repository returned is the one the call leaves
  behind, also when \<open>checkRep\<close> throws after the mutation. \<open>make_message\<close> is the
  object literal, \<open>added\<close> the repository after the three updates inside the \<open>try\<close>
  block: the object is stored under its id, its id is added to the room's set
  (\<open>index_room\<close>), and a reply is pushed onto its parent's \<open>replies\<close>
  (\<open>link_reply\<close>; the parent is looked up after the new object has been stored).
\<close>

definition link_reply :: "string option \<Rightarrow> ref \<Rightarrow> repository \<Rightarrow> repository" where
  "link_reply pid r s =
     (if truthy pid then
        (case map_of (messages s) (the pid) of
           None \<Rightarrow> s
         | Some parent \<Rightarrow>
             s\<lparr>heap := (heap s)(parent := (heap s parent)\<lparr>replies := replies (heap s parent) @ [r]\<rparr>)\<rparr>)
      else s)"

definition index_room :: "string \<Rightarrow> string \<Rightarrow> repository \<Rightarrow> repository" where
  "index_room rm i s =
     s\<lparr>messagesByRoom :=
         AList.update rm
           (set_add i (case map_of (messagesByRoom s) rm of None \<Rightarrow> [] | Some ids \<Rightarrow> ids))
           (messagesByRoom s)\<rparr>"

definition make_message :: "env \<Rightarrow> string \<Rightarrow> string \<Rightarrow> string \<Rightarrow> string option \<Rightarrow> message" where
  "make_message e uname txt rm pid =
     \<lparr>id_m = generateId e, username = uname, text_m = txt, time = clock e, timestamp = now e,
      room = rm, edited = False, editHistory = [], deleted = False, parentId = pid,
      replies = []\<rparr>"

definition added :: "env \<Rightarrow> string \<Rightarrow> string \<Rightarrow> string \<Rightarrow> string option \<Rightarrow> repository \<Rightarrow> repository" where
  "added e uname txt rm pid s =
     (let r = next_ref s;
          s1 = s\<lparr>heap := (heap s)(r := make_message e uname txt rm pid), next_ref := Suc r,
                 messages := AList.update (generateId e) r (messages s)\<rparr>
      in link_reply pid r (index_room rm (generateId e) s1))"

definition addMessage ::
  "env \<Rightarrow> string \<Rightarrow> string \<Rightarrow> string \<Rightarrow> string option \<Rightarrow> repository \<Rightarrow> (error + ref) \<times> repository" where
  "addMessage e uname txt rm pid s =
     (if uname = [] then (Inl (Error ''Precondition violated: username must be non-empty''), s)
      else if txt = [] then (Inl (Error ''Precondition violated: text must be non-empty''), s)
      else if rm = [] then (Inl (Error ''Precondition violated: room must be non-empty''), s)
      else if truthy pid \<and> \<not> has (messages s) (the pid)
        then (Inl (Error ''Precondition violated: parent message does not exist''), s)
      else
        (case checkRep (added e uname txt rm pid s) of
           Some err \<Rightarrow> (Inl err, added e uname txt rm pid s)
         | None \<Rightarrow> (Inr (next_ref s), added e uname txt rm pid s)))"

text \<open>
  \<open>editMessage(messageId, newText, username)\<close>: \<open>Inr None\<close> is the value \<open>null\<close>,
  \<open>Inr (Some r)\<close> the edited message.
\<close>

definition editMessage ::
  "env \<Rightarrow> string \<Rightarrow> string \<Rightarrow> string \<Rightarrow> repository \<Rightarrow> (error + ref option) \<times> repository" where
  "editMessage e messageId newText uname s =
     (if messageId = [] then (Inl (Error ''Precondition violated: messageId cannot be null''), s)
      else if newText = [] then (Inl (Error ''Precondition violated: newText must be non-empty''), s)
      else
        (case map_of (messages s) messageId of
           None \<Rightarrow> (Inl (Error ''Precondition violated: message does not exist''), s)
         | Some r \<Rightarrow>
             if deleted (heap s r)
               then (Inl (Error ''Precondition violated: cannot edit deleted message''), s)
             else if username (heap s r) \<noteq> uname then (Inr None, s)
             else
               let message = heap s r;
                   editRecord = \<lparr>text_e = text_m message, timestamp_e = timestamp message,
                                 time_e = time message\<rparr>;
                   message' = message\<lparr>editHistory := editHistory message @ [editRecord],
                                      text_m := newText, edited := True,
                                      time := clock e, timestamp := now e\<rparr>;
                   s' = s\<lparr>heap := (heap s)(r := message')\<rparr>
               in (case checkRep s' of Some err \<Rightarrow> (Inl err, s') | None \<Rightarrow> (Inr (Some r), s'))))"

text \<open>\<open>deleteMessage(messageId, username)\<close>: a soft delete.\<close>

definition deleteMessage ::
  "string \<Rightarrow> string \<Rightarrow> repository \<Rightarrow> (error + bool) \<times> repository" where
  "deleteMessage messageId uname s =
     (if messageId = [] then (Inl (Error ''Precondition violated: messageId cannot be null''), s)
      else
        (case map_of (messages s) messageId of
           None \<Rightarrow> (Inl (Error ''Precondition violated: message does not exist''), s)
         | Some r \<Rightarrow>
             if username (heap s r) \<noteq> uname then (Inr False, s)
             else
               let s' = s\<lparr>heap := (heap s)(r := (heap s r)\<lparr>deleted := True,
                                                               text_m := ''[Message deleted]''\<rparr>)\<rparr>
               in (case checkRep s' of Some err \<Rightarrow> (Inl err, s') | None \<Rightarrow> (Inr True, s'))))"

definition getMessage :: "repository \<Rightarrow> string \<Rightarrow> ref option" where
  "getMessage s messageId = map_of (messages s) messageId"

text \<open>
  \<open>getMessagesForRoom(room)\<close>: the ids of the room's set, each looked up in
  \<open>messages\<close> and kept when the message is there and not deleted (\<open>lookup_live\<close>),
  sorted by timestamp. \<open>Array.prototype.sort\<close>
  is stable, and so is \<^const>\<open>sort_key\<close>.
\<close>

definition lookup_live :: "repository \<Rightarrow> string \<Rightarrow> ref option" where
  "lookup_live s i =
     (case map_of (messages s) i of
        None \<Rightarrow> None
      | Some r \<Rightarrow> if deleted (heap s r) then None else Some r)"

definition getMessagesForRoom :: "repository \<Rightarrow> string \<Rightarrow> ref list" where
  "getMessagesForRoom s rm =
     (case map_of (messagesByRoom s) rm of
        None \<Rightarrow> []
      | Some messageIds \<Rightarrow>
          sort_key (\<lambda>r. timestamp (heap s r)) (List.map_filter (lookup_live s) messageIds))"

text \<open>
  The recursive helpers of \<open>getMessageThread\<close>, \<open>searchMessages\<close> and
  \<open>getThreadDepth\<close> follow \<open>replies\<close> references, and nothing in the code bounds
  the nesting. Each helper takes a fuel \<open>n\<close>, a bound on the nesting it may descend;
  \<open>None\<close> means that the fuel ran out. The loop over a \<open>replies\<close> array takes the
  recursive call as its argument \<open>rec\<close>.

  \<open>populateReplies(msg)\<close> assigns the filtered array to the \<open>replies\<close> field of the
  object it is given and returns that same object, so the \<open>map\<close> over the filtered
  array yields the references it started from.
\<close>

fun populate_each ::
  "((ref \<Rightarrow> message) \<Rightarrow> ref \<Rightarrow> (ref \<Rightarrow> message) option) \<Rightarrow> ref list \<Rightarrow> (ref \<Rightarrow> message)
     \<Rightarrow> (ref \<Rightarrow> message) option" where
  "populate_each rec [] h = Some h"
| "populate_each rec (reply # rest) h =
     (case rec h reply of None \<Rightarrow> None | Some h' \<Rightarrow> populate_each rec rest h')"

primrec populateReplies :: "nat \<Rightarrow> (ref \<Rightarrow> message) \<Rightarrow> ref \<Rightarrow> (ref \<Rightarrow> message) option" where
  "populateReplies 0 = (\<lambda>h msg. None)"
| "populateReplies (Suc n) = (\<lambda>h msg.
     if replies (h msg) = [] then Some h
     else
       let kept = filter (\<lambda>reply. \<not> deleted (h reply)) (replies (h msg))
       in (case populate_each (populateReplies n) kept h of
             None \<Rightarrow> None
           | Some h' \<Rightarrow> Some (h'(msg := (h' msg)\<lparr>replies := kept\<rparr>))))"

text \<open>
  \<open>getMessageThread(messageId)\<close> calls \<open>populateReplies\<close> on the spread copy
  \<open>{ ...message }\<close>: a new object with the fields of the stored one, the \<open>replies\<close>
  array shared. No object of the heap refers to the copy, so it is returned by value;
  the objects its \<open>replies\<close> refer to are the stored ones.
\<close>

definition getMessageThread ::
  "nat \<Rightarrow> repository \<Rightarrow> string \<Rightarrow> (message option \<times> repository) option" where
  "getMessageThread n s messageId =
     (case map_of (messages s) messageId of
        None \<Rightarrow> Some (None, s)
      | Some r \<Rightarrow>
          let copy = heap s r in
          if replies copy = [] then Some (Some copy, s)
          else
            let kept = filter (\<lambda>reply. \<not> deleted (heap s reply)) (replies copy)
            in (case populate_each (populateReplies n) kept (heap s) of
                  None \<Rightarrow> None
                | Some h' \<Rightarrow> Some (Some (copy\<lparr>replies := kept\<rparr>), s\<lparr>heap := h'\<rparr>)))"

text \<open>
  \<open>searchMessages(keyword, room)\<close>. \<open>searchRecursive\<close> pushes onto the shared array
  \<open>results\<close>; the boolean it returns is discarded by both of its callers and is not
  modelled.
\<close>

fun search_each ::
  "(ref \<Rightarrow> ref list \<Rightarrow> ref list option) \<Rightarrow> (ref \<Rightarrow> message) \<Rightarrow> ref list \<Rightarrow> ref list
     \<Rightarrow> ref list option" where
  "search_each rec h [] results = Some results"
| "search_each rec h (reply # rest) results =
     (if \<not> deleted (h reply)
      then (case rec reply results of
              None \<Rightarrow> None
            | Some results' \<Rightarrow> search_each rec h rest results')
      else search_each rec h rest results)"

primrec searchRecursive :: "nat \<Rightarrow> (ref \<Rightarrow> message) \<Rightarrow> string \<Rightarrow> ref \<Rightarrow> ref list \<Rightarrow> ref list option" where
  "searchRecursive 0 = (\<lambda>h lowerKeyword msg results. None)"
| "searchRecursive (Suc n) = (\<lambda>h lowerKeyword msg results.
     let matchesThisMessage = includes_str (toLowerCase (text_m (h msg))) lowerKeyword;
         results1 = (if matchesThisMessage then results @ [msg] else results)
     in search_each (searchRecursive n h lowerKeyword) h (replies (h msg)) results1)"

fun search_all ::
  "(ref \<Rightarrow> ref list \<Rightarrow> ref list option) \<Rightarrow> ref list \<Rightarrow> ref list \<Rightarrow> ref list option" where
  "search_all rec [] results = Some results"
| "search_all rec (message # rest) results =
     (case rec message results of
        None \<Rightarrow> None
      | Some results' \<Rightarrow> search_all rec rest results')"

definition searchMessages :: "nat \<Rightarrow> repository \<Rightarrow> string \<Rightarrow> string \<Rightarrow> ref list option" where
  "searchMessages n s keyword rm =
     search_all (searchRecursive n (heap s) (toLowerCase keyword)) (getMessagesForRoom s rm) []"

text \<open>\<open>getThreadDepth(messageId)\<close> and its helper \<open>calculateDepth\<close>.\<close>

fun depth_each :: "(ref \<Rightarrow> int option) \<Rightarrow> (ref \<Rightarrow> message) \<Rightarrow> ref list \<Rightarrow> int \<Rightarrow> int option" where
  "depth_each rec h [] maxDepth = Some maxDepth"
| "depth_each rec h (reply # rest) maxDepth =
     (if \<not> deleted (h reply)
      then (case rec reply of
              None \<Rightarrow> None
            | Some depth \<Rightarrow> depth_each rec h rest (max maxDepth depth))
      else depth_each rec h rest maxDepth)"

primrec calculateDepth :: "nat \<Rightarrow> (ref \<Rightarrow> message) \<Rightarrow> ref \<Rightarrow> int option" where
  "calculateDepth 0 = (\<lambda>h msg. None)"
| "calculateDepth (Suc n) = (\<lambda>h msg.
     if replies (h msg) = [] then Some 0
     else (case depth_each (calculateDepth n h) h (replies (h msg)) 0 of
             None \<Rightarrow> None
           | Some maxDepth \<Rightarrow> Some (1 + maxDepth)))"

definition getThreadDepth :: "nat \<Rightarrow> repository \<Rightarrow> string \<Rightarrow> int option" where
  "getThreadDepth n s messageId =
     (case map_of (messages s) messageId of
        None \<Rightarrow> Some (- 1)
      | Some r \<Rightarrow> calculateDepth n (heap s) r)"

section \<open>The states of the repository\<close>

text \<open>
  The repositories a client can bring about: the constructor's, and what the mutating
  calls and \<open>getMessageThread\<close> (which writes to the heap) leave behind, whatever they
  return. \<open>generateId\<close> is taken to return an id that is not in use.
\<close>

inductive reachable :: "repository \<Rightarrow> bool" where
  start: "reachable new_repository"
| add: "reachable s \<Longrightarrow> \<not> has (messages s) (generateId e)
          \<Longrightarrow> reachable (snd (addMessage e u t rm pid s))"
| edit: "reachable s \<Longrightarrow> reachable (snd (editMessage e i t u s))"
| delete: "reachable s \<Longrightarrow> reachable (snd (deleteMessage i u s))"
| thread: "reachable s \<Longrightarrow> getMessageThread n s i = Some (m, s') \<Longrightarrow> reachable s'"

text \<open>
  Two facts hold in all of them. First, a reply is allocated after its parent
  (\<open>refs_ok\<close>): the references of the index are allocated, and a \<open>replies\<close> array of
  an allocated object holds allocated objects of larger address only, so following
  \<open>replies\<close> ends. Second, the room index and the message index agree
  (\<open>index_ok\<close>): an id stored in \<open>messages\<close> is in the set of its message's room, and
  the set of a room holds ids of stored messages of that room only.
\<close>

definition refs_ok :: "repository \<Rightarrow> bool" where
  "refs_ok s \<longleftrightarrow>
     (\<forall>p \<in> set (messages s). snd p < next_ref s)
     \<and> (\<forall>r < next_ref s. \<forall>c \<in> set (replies (heap s r)). r < c \<and> c < next_ref s)"

definition index_ok :: "repository \<Rightarrow> bool" where
  "index_ok s \<longleftrightarrow>
     (\<forall>i r. map_of (messages s) i = Some r \<longrightarrow>
        (\<exists>ids. map_of (messagesByRoom s) (room (heap s r)) = Some ids \<and> i \<in> set ids))
     \<and> (\<forall>rm ids i. map_of (messagesByRoom s) rm = Some ids \<and> i \<in> set ids \<longrightarrow>
        (\<exists>r. map_of (messages s) i = Some r \<and> room (heap s r) = rm))"

text \<open>
  \<open>pruned h h'\<close>: the heap \<open>h'\<close> is \<open>h\<close> with some \<open>replies\<close> arrays replaced by
  arrays of some of their elements; no other field differs.
\<close>

definition pruned :: "(ref \<Rightarrow> message) \<Rightarrow> (ref \<Rightarrow> message) \<Rightarrow> bool" where
  "pruned h h' \<longleftrightarrow>
     (\<forall>x. h' x = (h x)\<lparr>replies := replies (h' x)\<rparr> \<and> set (replies (h' x)) \<subseteq> set (replies (h x)))"

section \<open>The command parser\<close>

text \<open>
  \<open>CommandParser.tokenize\<close> walks the input with an index \<open>i\<close>; its inner
  \<open>while\<close> loops advance \<open>i\<close> while a test on the current character holds and
  collect the characters passed. \<open>scan P input i\<close> is the index such a loop stops
  at, \<open>slice input i j\<close> the characters it has collected.
\<close>

datatype tokenType = COMMAND | ARGUMENT | STRING | NUMBER | EOF

record token =
  ttype :: tokenType
  tvalue :: string

function scan :: "(char \<Rightarrow> bool) \<Rightarrow> string \<Rightarrow> nat \<Rightarrow> nat" where
  "scan P input i = (if i < length input \<and> P (input ! i) then scan P input (Suc i) else i)"
  by pat_completeness auto
termination
  by (relation "measure (\<lambda>(P, input, i). length input - i)") auto

declare scan.simps [simp del]

definition slice :: "string \<Rightarrow> nat \<Rightarrow> nat \<Rightarrow> string" where
  "slice input i j = take (j - i) (drop i input)"

lemma scan_ge: "i \<le> scan P input i"
  by (induction P input i rule: scan.induct) (subst scan.simps, auto)

lemma scan_gt: "i < length input \<Longrightarrow> P (input ! i) \<Longrightarrow> i < scan P input i"
  using scan_ge[of "Suc i" P input] by (subst scan.simps) auto

text \<open>
  The outer loop of \<open>tokenize\<close>, from index \<open>i\<close> with the tokens pushed so far.
  \<open>CHR 0x09\<close> is the tab, \<open>CHR 0x22\<close> the double and \<open>CHR 0x27\<close> the single quote.
\<close>

function tokenize_from :: "string \<Rightarrow> nat \<Rightarrow> token list \<Rightarrow> token list" where
  "tokenize_from input i tokens =
     (if i < length input then
        let char = input ! i in
        if char = CHR '' '' \<or> char = CHR 0x09 then tokenize_from input (i + 1) tokens
        else if char = CHR ''/'' \<and> i = 0 then
          let j = scan (\<lambda>c. c \<noteq> CHR '' '' \<and> c \<noteq> CHR 0x09) input (i + 1)
          in tokenize_from input j (tokens @ [\<lparr>ttype = COMMAND, tvalue = slice input (i + 1) j\<rparr>])
        else if char = CHR 0x22 \<or> char = CHR 0x27 then
          let j = scan (\<lambda>c. c \<noteq> char) input (i + 1)
          in tokenize_from input (j + 1) (tokens @ [\<lparr>ttype = STRING, tvalue = slice input (i + 1) j\<rparr>])
        else if isDigit char then
          let j = scan isDigit input i
          in tokenize_from input j (tokens @ [\<lparr>ttype = NUMBER, tvalue = slice input i j\<rparr>])
        else
          let j = scan (\<lambda>c. c \<noteq> CHR '' '' \<and> c \<noteq> CHR 0x09) input i;
              arg = slice input i j
          in tokenize_from input j
               (if length arg > 0 then tokens @ [\<lparr>ttype = ARGUMENT, tvalue = arg\<rparr>] else tokens)
      else tokens @ [\<lparr>ttype = EOF, tvalue = []\<rparr>])"
  by pat_completeness auto
termination
proof (relation "measure (\<lambda>(input, i, tokens). length input - i)", goal_cases)
  case 1
  show ?case by simp
next
  case (2 input i tokens x)
  then show ?case by simp
next
  case (3 input i tokens x xa)
  then show ?case using scan_ge[of "i + 1" "\<lambda>c. c \<noteq> CHR '' '' \<and> c \<noteq> CHR 0x09" input] by simp
next
  case (4 input i tokens x xa)
  then show ?case using scan_ge[of "i + 1" "\<lambda>c. c \<noteq> x" input] by simp
next
  case (5 input i tokens x xa)
  then show ?case using scan_gt[of i input isDigit] by simp
next
  case (6 input i tokens x xa xb)
  then show ?case
    using scan_gt[of i input "\<lambda>c. c \<noteq> CHR '' '' \<and> c \<noteq> CHR 0x09"] by simp
qed

declare tokenize_from.simps [simp del]

definition tokenize :: "string \<Rightarrow> token list" where
  "tokenize input = tokenize_from input 0 []"

text \<open>
  \<open>buildAST\<close> returns one of two shapes: \<open>{ type: 'INVALID_COMMAND' }\<close>, or a
  \<open>COMMAND_NODE\<close> with the command token's value and one child \<open>{ type, value }\<close> per
  token up to the first \<open>EOF\<close>.
\<close>

datatype astNode = INVALID_COMMAND | COMMAND_NODE string "(tokenType \<times> string) list"

definition buildAST :: "token list \<Rightarrow> astNode" where
  "buildAST tokens =
     (case tokens of
        [] \<Rightarrow> INVALID_COMMAND
      | t # rest \<Rightarrow>
          if ttype t \<noteq> COMMAND then INVALID_COMMAND
          else COMMAND_NODE (tvalue t)
                 (map (\<lambda>token. (ttype token, tvalue token))
                    (takeWhile (\<lambda>token. ttype token \<noteq> EOF) rest)))"

text \<open>
  \<open>parse(input)\<close>; \<open>None\<close> stands for \<open>null\<close> and \<open>undefined\<close>. The parser's own
  \<open>checkRep\<close> is run with \<open>position = 0\<close> and \<open>currentChar\<close> the first character or
  \<open>null\<close>, where it cannot throw; the three fields it reads are not modelled.
\<close>

record parsedCommand =
  ctype :: string
  args :: "string list"
  raw :: string

definition validCommands :: "string list" where
  "validCommands = [''edit'', ''delete'', ''mute'', ''ban'', ''reply'']"

definition parse :: "string option \<Rightarrow> error + parsedCommand" where
  "parse input =
     (case input of
        None \<Rightarrow> Inl (Error ''Precondition violated: input cannot be null or undefined'')
      | Some inp \<Rightarrow>
          if \<not> startsWith (trim inp) ''/'' then Inr \<lparr>ctype = ''unknown'', args = [], raw = inp\<rparr>
          else
            (case buildAST (tokenize (trim inp)) of
               INVALID_COMMAND \<Rightarrow> Inr \<lparr>ctype = ''unknown'', args = [], raw = inp\<rparr>
             | COMMAND_NODE v children \<Rightarrow>
                 if v = [] then Inr \<lparr>ctype = ''unknown'', args = [], raw = inp\<rparr>
                 else
                   let commandType = toLowerCase v;
                       result = \<lparr>ctype = (if commandType \<in> set validCommands then commandType
                                          else ''unknown''),
                                 args = map snd children, raw = inp\<rparr>
                   in if ctype result = []
                      then Inl (Error ''Postcondition violated: invalid ParsedCommand structure'')
                      else Inr result))"

section \<open>The moderation rule language\<close>

text \<open>
  A rule value and a resolved field are a \<open>string | number\<close>. A number is modelled by
  the rational it denotes: the rounding of a long literal to a double is not modelled.
\<close>

datatype jsvalue = Str string | Num rat

record ruleCondition =
  field :: string
  operator :: string
  cvalue :: jsvalue

text \<open>
  \<open>s.split(sep)\<close> for a string separator: the pieces between the occurrences of
  \<open>sep\<close>, found from left to right; \<open>cur\<close> is the piece being collected.
\<close>

function split_from :: "string \<Rightarrow> string \<Rightarrow> string \<Rightarrow> string list" where
  "split_from sep cur s =
     (if sep \<noteq> [] \<and> startsWith s sep then cur # split_from sep [] (drop (length sep) s)
      else (case s of [] \<Rightarrow> [cur] | c # cs \<Rightarrow> split_from sep (cur @ [c]) cs))"
  by pat_completeness auto
termination
proof (relation "measure (\<lambda>(sep, cur, s). length s)", goal_cases)
  case 1
  show ?case by simp
next
  case (2 sep cur s)
  then have "take (length sep) s = sep" "sep \<noteq> []" by (simp_all add: startsWith_def)
  then have "s \<noteq> []" by auto
  with \<open>sep \<noteq> []\<close> show ?case by simp
next
  case (3 sep cur s c cs)
  then show ?case by simp
qed

declare split_from.simps [simp del]

definition split_str :: "string \<Rightarrow> string \<Rightarrow> string list" where
  "split_str s sep = (if sep = [] then map (\<lambda>c. [c]) s else split_from sep [] s)"

text \<open>\<open>s.split(/\s+/)\<close>: the pieces between the maximal runs of white space.\<close>

function split_ws :: "string \<Rightarrow> string list" where
  "split_ws s =
     (let w = takeWhile (\<lambda>c. \<not> isWhiteSpace c) s;
          r = dropWhile (\<lambda>c. \<not> isWhiteSpace c) s
      in if r = [] then [w] else w # split_ws (dropWhile isWhiteSpace r))"
  by pat_completeness auto
termination
proof (relation "measure length", goal_cases)
  case 1
  show ?case by simp
next
  case (2 s w r)
  from 2 have rne: "r \<noteq> []" and rd: "r = dropWhile (\<lambda>c. \<not> isWhiteSpace c) s"
    by simp_all
  from rne obtain a list where r: "r = a # list" by (cases r) simp_all
  have "\<not> \<not> isWhiteSpace (hd r)"
    unfolding rd by (rule hd_dropWhile) (use rne rd in simp)
  then have "isWhiteSpace a" by (simp add: r)
  then have "length (dropWhile isWhiteSpace r) < length r"
    by (simp add: r less_Suc_eq_le length_dropWhile_le)
  also have "length r \<le> length s" by (simp add: rd length_dropWhile_le)
  finally show ?case by simp
qed

declare split_ws.simps [simp del]

text \<open>
  \<open>parseFloat\<close>: leading white space is skipped, then the longest prefix of the form
  sign, digits, fraction, exponent is read, \<open>None\<close> standing for \<open>NaN\<close>. The literal
  \<open>Infinity\<close> is not modelled: \<open>ModerationDSLParser.parse\<close> lower-cases the rule before
  \<open>parseCondition\<close> sees any part of it, and \<open>parseFloat\<close> accepts that literal only
  with a capital \<open>I\<close>.
\<close>

fun digitsValue :: "string \<Rightarrow> nat \<Rightarrow> nat" where
  "digitsValue [] acc = acc"
| "digitsValue (c # cs) acc = digitsValue cs (10 * acc + (of_char c - 48))"

definition exponentPart :: "string \<Rightarrow> int" where
  "exponentPart s =
     (case s of
        [] \<Rightarrow> 0
      | c # r \<Rightarrow>
          if c = CHR ''e'' \<or> c = CHR ''E'' then
            (let neg = (case r of [] \<Rightarrow> False | d # _ \<Rightarrow> d = CHR ''-'');
                 r' = (case r of [] \<Rightarrow> [] | d # ds \<Rightarrow> if d = CHR ''-'' \<or> d = CHR ''+'' then ds else r);
                 ds = takeWhile isDigit r'
             in if ds = [] then 0
                else if neg then - int (digitsValue ds 0) else int (digitsValue ds 0))
          else 0)"

definition parseFloat :: "string \<Rightarrow> rat option" where
  "parseFloat str =
     (let s = dropWhile isWhiteSpace str;
          neg = (case s of [] \<Rightarrow> False | c # _ \<Rightarrow> c = CHR ''-'');
          s1 = (case s of [] \<Rightarrow> [] | c # r \<Rightarrow> if c = CHR ''-'' \<or> c = CHR ''+'' then r else s);
          ip = takeWhile isDigit s1;
          s2 = dropWhile isDigit s1;
          fp = (case s2 of [] \<Rightarrow> [] | c # r \<Rightarrow> if c = CHR ''.'' then takeWhile isDigit r else []);
          s3 = (case s2 of [] \<Rightarrow> [] | c # r \<Rightarrow> if c = CHR ''.'' then dropWhile isDigit r else s2)
      in if ip = [] \<and> fp = [] then None
         else
           let mantissa = (of_nat (digitsValue (ip @ fp) 0) :: rat) / 10 ^ length fp;
               e = exponentPart s3;
               magnitude = (if e < 0 then mantissa / 10 ^ nat (- e) else mantissa * 10 ^ nat e)
           in Some (if neg then - magnitude else magnitude))"


text \<open>\<open>replace(/['"]/g, '')\<close>.\<close>

definition stripQuotes :: "string \<Rightarrow> string" where
  "stripQuotes s = filter (\<lambda>c. c \<noteq> CHR 0x27 \<and> c \<noteq> CHR 0x22) s"

text \<open>
  \<open>parseCondition(condStr)\<close> tries the operators in its fixed order and returns at the
  first one whose split yields exactly two parts.
\<close>

definition operators :: "string list" where
  "operators = [''contains'', ''equals'', ''matches'', ''>='', ''<='', ''>'', ''<'']"

fun parseCondition_from :: "string list \<Rightarrow> string \<Rightarrow> ruleCondition option" where
  "parseCondition_from [] condStr = None"
| "parseCondition_from (op # ops) condStr =
     (case split_str condStr ('' '' @ op @ '' '') of
        [p0, p1] \<Rightarrow>
          let v = stripQuotes (trim p1)
          in Some \<lparr>field = trim p0, operator = op,
                   cvalue = (case parseFloat v of None \<Rightarrow> Str v | Some numValue \<Rightarrow> Num numValue)\<rparr>
      | _ \<Rightarrow> parseCondition_from ops condStr)"

definition parseCondition :: "string \<Rightarrow> ruleCondition option" where
  "parseCondition condStr = parseCondition_from operators condStr"

text \<open>
  \<open>evaluateCondition\<close> relies on three conversions of the host language whose full
  definitions are outside this development; they are parameters of the model:
  \<open>numberToString\<close> is the conversion \<open>includes\<close> and \<open>new RegExp\<close> apply to a
  number passed where a string is expected, \<open>stringToNumber\<close> the conversion the
  relational operators apply to a string operand (\<open>None\<close> is \<open>NaN\<close>), and
  \<open>newRegExp p\<close> is \<open>None\<close> when \<open>new RegExp(p)\<close> throws and otherwise the
  \<open>test\<close> function of the compiled pattern.
\<close>

record builtins =
  numberToString :: "rat \<Rightarrow> string"
  stringToNumber :: "string \<Rightarrow> rat option"
  newRegExp :: "string \<Rightarrow> (string \<Rightarrow> bool) option"

text \<open>
  The first \<open>switch\<close> of \<open>evaluateCondition\<close>: the value of the field, \<open>None\<close>
  where the \<open>default\<close> branch returns \<open>false\<close>.
\<close>

definition fieldValue :: "string \<Rightarrow> string \<Rightarrow> string \<Rightarrow> jsvalue option" where
  "fieldValue f message uname =
     (if f = ''message'' then Some (Str (toLowerCase message))
      else if f = ''user'' \<or> f = ''username'' then Some (Str (toLowerCase uname))
      else if f = ''word_count'' then Some (Num (of_nat (length (split_ws message))))
      else if f = ''length'' then Some (Num (of_nat (length message)))
      else None)"

definition condValue :: "ruleCondition \<Rightarrow> jsvalue" where
  "condValue condition = (case cvalue condition of Str s \<Rightarrow> Str (toLowerCase s) | Num n \<Rightarrow> Num n)"

text \<open>
  The second \<open>switch\<close>. \<open>===\<close> on two values of type \<open>string | number\<close> is
  equality of \<^typ>\<open>jsvalue\<close>: the types must agree, and nothing is converted.
\<close>

definition asString :: "builtins \<Rightarrow> jsvalue \<Rightarrow> string" where
  "asString js v = (case v of Str s \<Rightarrow> s | Num n \<Rightarrow> numberToString js n)"

definition asNumber :: "builtins \<Rightarrow> jsvalue \<Rightarrow> rat option" where
  "asNumber js v = (case v of Str s \<Rightarrow> stringToNumber js s | Num n \<Rightarrow> Some n)"

definition compareNumber :: "builtins \<Rightarrow> (rat \<Rightarrow> rat \<Rightarrow> bool) \<Rightarrow> jsvalue \<Rightarrow> jsvalue \<Rightarrow> bool" where
  "compareNumber js rel fv cv =
     (case fv of
        Str _ \<Rightarrow> False
      | Num a \<Rightarrow> (case asNumber js cv of None \<Rightarrow> False | Some b \<Rightarrow> rel a b))"

definition evaluateCondition :: "builtins \<Rightarrow> ruleCondition \<Rightarrow> string \<Rightarrow> string \<Rightarrow> bool" where
  "evaluateCondition js condition message uname =
     (case fieldValue (field condition) message uname of
        None \<Rightarrow> False
      | Some fv \<Rightarrow>
          let cv = condValue condition in
          if operator condition = ''contains'' then
            (case fv of Str f \<Rightarrow> includes_str f (asString js cv) | Num _ \<Rightarrow> False)
          else if operator condition = ''equals'' then fv = cv
          else if operator condition = ''matches'' then
            (case newRegExp js (asString js cv) of
               None \<Rightarrow> False
             | Some test \<Rightarrow> (case fv of Str f \<Rightarrow> test f | Num _ \<Rightarrow> False))
          else if operator condition = ''>'' then compareNumber js (\<lambda>a b. a > b) fv cv
          else if operator condition = ''<'' then compareNumber js (\<lambda>a b. a < b) fv cv
          else if operator condition = ''>='' then compareNumber js (\<lambda>a b. a \<ge> b) fv cv
          else if operator condition = ''<='' then compareNumber js (\<lambda>a b. a \<le> b) fv cv
          else False)"

section \<open>The user registry\<close>

text \<open>
  \<open>UserRepository\<close>: the map \<open>users\<close> from socket id to \<open>User\<close>, and the map
  \<open>usernameIndex\<close> from lower-cased username to socket id. A \<open>UserJoinResult\<close> is
  \<open>{ error }\<close> or \<open>{ user }\<close>.
\<close>

datatype role = Admin | Moderator | User

record user =
  id_u :: string
  username_u :: string
  room_u :: string
  role :: role
  muted :: bool
  banned :: bool

record userJoinResult =
  error_r :: "string option"
  user_r :: "user option"

record userRepository =
  users :: "(string \<times> user) list"
  usernameIndex :: "(string \<times> string) list"

definition new_userRepository :: userRepository where
  "new_userRepository = \<lparr>users = [], usernameIndex = []\<rparr>"

fun checkRep_users_loop :: "string list \<Rightarrow> string list \<Rightarrow> (string \<times> user) list \<Rightarrow> error option" where
  "checkRep_users_loop socketIds usernames [] = None"
| "checkRep_users_loop socketIds usernames ((i, u) # rest) =
     (if i \<in> set socketIds then Some (Error ''Invariant violation: duplicate socket ID'')
      else if toLowerCase (username_u u) \<in> set usernames
        then Some (Error ''Invariant violation: duplicate username'')
      else if room_u u = [] then Some (Error ''Invariant violation: room must be non-empty'')
      else checkRep_users_loop (i # socketIds) (toLowerCase (username_u u) # usernames) rest)"

definition checkRep_users :: "userRepository \<Rightarrow> error option" where
  "checkRep_users s =
     (case checkRep_users_loop [] [] (users s) of
        Some e \<Rightarrow> Some e
      | None \<Rightarrow>
          if length (usernameIndex s) \<noteq> length (users s)
          then Some (Error ''Invariant violation: username index size mismatch'')
          else None)"

text \<open>
  \<open>userJoin(id, username, room, role)\<close>; the caller that leaves \<open>role\<close> out passes
  \<open>User\<close>. \<open>Inl\<close> is a thrown error, \<open>Inr\<close> the object returned.
\<close>

definition userJoin ::
  "string \<Rightarrow> string \<Rightarrow> string \<Rightarrow> role \<Rightarrow> userRepository \<Rightarrow> (error + userJoinResult) \<times> userRepository" where
  "userJoin i uname rm rl s =
     (if i = [] then (Inl (Error ''Precondition violated: id must be non-empty''), s)
      else if uname = [] then (Inl (Error ''Precondition violated: username must be non-empty''), s)
      else if rm = [] then (Inl (Error ''Precondition violated: room must be non-empty''), s)
      else if has (users s) i then (Inl (Error ''Precondition violated: socket ID already in use''), s)
      else if has (usernameIndex s) (toLowerCase uname)
        then (Inr \<lparr>error_r = Some ''Username is already taken'', user_r = None\<rparr>, s)
      else
        let u = \<lparr>id_u = i, username_u = uname, room_u = rm, role = rl, muted = False, banned = False\<rparr>;
            s' = s\<lparr>users := AList.update i u (users s),
                   usernameIndex := AList.update (toLowerCase uname) i (usernameIndex s)\<rparr>
        in (case checkRep_users s' of
              Some err \<Rightarrow> (Inl err, s')
            | None \<Rightarrow> (Inr \<lparr>error_r = None, user_r = Some u\<rparr>, s')))"

definition getCurrentUser :: "userRepository \<Rightarrow> string \<Rightarrow> user option" where
  "getCurrentUser s i = map_of (users s) i"

definition userLeave :: "string \<Rightarrow> userRepository \<Rightarrow> (error + user option) \<times> userRepository" where
  "userLeave i s =
     (case map_of (users s) i of
        Some u \<Rightarrow>
          let s' = s\<lparr>users := AList.delete i (users s),
                     usernameIndex := AList.delete (toLowerCase (username_u u)) (usernameIndex s)\<rparr>
          in (case checkRep_users s' of
                Some err \<Rightarrow> (Inl err, s')
              | None \<Rightarrow> (Inr (Some u), s'))
      | None \<Rightarrow> (Inr None, s))"

text \<open>
  The state the registry is in between calls: the two maps list the same users in the
  same order, each index entry made from the user beside it, and no socket id, no
  lower-cased username and no empty room occurs twice or at all, respectively.
\<close>

definition lowerName :: "string \<times> user \<Rightarrow> string" where
  "lowerName p = toLowerCase (username_u (snd p))"

definition index_entry :: "string \<times> user \<Rightarrow> string \<times> string" where
  "index_entry p = (lowerName p, fst p)"

definition registry_ok :: "userRepository \<Rightarrow> bool" where
  "registry_ok s \<longleftrightarrow>
     usernameIndex s = map index_entry (users s)
     \<and> distinct (map fst (users s))
     \<and> distinct (map lowerName (users s))
     \<and> (\<forall>p \<in> set (users s). room_u (snd p) \<noteq> [])"

section \<open>Clients of the repository used in the statements\<close>

text \<open>
  A client that edits one message repeatedly: \<open>editAll es i u\<close> calls
  \<open>editMessage\<close> once per element of \<open>es\<close> (the environment of the call and the new
  text) and yields the final repository when every call returned the message, \<open>None\<close>
  as soon as one call threw or returned \<open>null\<close>.
\<close>

fun editAll :: "(env \<times> string) list \<Rightarrow> string \<Rightarrow> string \<Rightarrow> repository \<Rightarrow> repository option" where
  "editAll [] i u s = Some s"
| "editAll ((e, newText) # rest) i u s =
     (case editMessage e i newText u s of
        (Inr (Some r), s') \<Rightarrow> editAll rest i u s'
      | _ \<Rightarrow> None)"

text \<open>
  The history entries these edits push, for a message whose text, timestamp and time
  are \<open>txt\<close>, \<open>ts\<close> and \<open>tm\<close> before the first edit: each edit records the state the edit
  before it left.
\<close>

fun snapshots :: "string \<Rightarrow> int \<Rightarrow> string \<Rightarrow> (env \<times> string) list \<Rightarrow> messageEdit list" where
  "snapshots txt ts tm [] = []"
| "snapshots txt ts tm ((e, newText) # rest) =
     \<lparr>text_e = txt, timestamp_e = ts, time_e = tm\<rparr> # snapshots newText (now e) (clock e) rest"

text \<open>Concrete environments and repositories for the examples.\<close>

definition env1 :: env where
  "env1 = \<lparr>now = 1000, clock = ''9:00 am'', generateId = ''m1''\<rparr>"

definition env2 :: env where
  "env2 = \<lparr>now = 2000, clock = ''9:01 am'', generateId = ''m2''\<rparr>"

definition env3 :: env where
  "env3 = \<lparr>now = 3000, clock = ''9:02 am'', generateId = ''m3''\<rparr>"

definition store1 :: repository where
  "store1 = snd (addMessage env1 ''alice'' ''hello'' ''room1'' None new_repository)"

definition store1_deleted :: repository where
  "store1_deleted = snd (deleteMessage ''m1'' ''alice'' store1)"

definition store1_edited :: repository where
  "store1_edited =
     snd (editMessage env3 ''m1'' ''v3'' ''alice''
            (snd (editMessage env2 ''m1'' ''v2'' ''alice'' store1)))"

text \<open>
  The rule condition \<open>message equals "123"\<close>, and an instance of the host conversions
  for the examples (none of them is consulted by \<open>equals\<close>).
\<close>

definition msg_equals_123 :: string where
  "msg_equals_123 = ''message equals '' @ [CHR 0x22] @ ''123'' @ [CHR 0x22]"

definition host0 :: builtins where
  "host0 = \<lparr>numberToString = (\<lambda>n. []), stringToNumber = (\<lambda>s. None), newRegExp = (\<lambda>p. None)\<rparr>"

text \<open>The command \<open>/edit 123 "multi word text"\<close>.\<close>

definition edit_command :: string where
  "edit_command = ''/edit 123 '' @ [CHR 0x22] @ ''multi word text'' @ [CHR 0x22]"

text \<open>
  A thread of three messages (\<open>m1\<close>, its reply \<open>m2\<close>, and \<open>m3\<close>, a reply to \<open>m2\<close>), and
  the repositories after the last message of the thread of two, or of three, has been
  deleted by its author.
\<close>

definition store2 :: repository where
  "store2 = snd (addMessage env2 ''bob'' ''reply'' ''room1'' (Some ''m1'') store1)"

definition store2_deleted :: repository where
  "store2_deleted = snd (deleteMessage ''m2'' ''bob'' store2)"

definition store3 :: repository where
  "store3 = snd (addMessage env3 ''carol'' ''nested'' ''room1'' (Some ''m2'') store2)"

definition store3_deleted :: repository where
  "store3_deleted = snd (deleteMessage ''m3'' ''carol'' store3)"

text \<open>
  The thread of the repository's own search test: a root, five replies \<open>Reply i\<close> to
  it, and three replies \<open>Nested j\<close> to each of these, added in the order of the test's
  loops. \<open>addAll\<close> adds the messages of a list one after the other.
\<close>

fun addAll :: "(env \<times> string \<times> string \<times> string \<times> string option) list \<Rightarrow> repository \<Rightarrow> repository" where
  "addAll [] s = s"
| "addAll ((e, u, t, rm, pid) # rest) s = addAll rest (snd (addMessage e u t rm pid s))"

definition mk :: "int \<Rightarrow> string \<Rightarrow> env" where
  "mk t i = \<lparr>now = t, clock = ''9:00 am'', generateId = i\<rparr>"

definition thread21 :: "(env \<times> string \<times> string \<times> string \<times> string option) list" where
  "thread21 =
    [(mk 1000 ''root'', ''user1'', ''Root'', ''room1'', None),
     (mk 1001 ''r0'', ''user0'', ''Reply 0'', ''room1'', Some ''root''),
     (mk 1002 ''r0n0'', ''user0-0'', ''Nested 0'', ''room1'', Some ''r0''),
     (mk 1003 ''r0n1'', ''user0-1'', ''Nested 1'', ''room1'', Some ''r0''),
     (mk 1004 ''r0n2'', ''user0-2'', ''Nested 2'', ''room1'', Some ''r0''),
     (mk 1005 ''r1'', ''user1'', ''Reply 1'', ''room1'', Some ''root''),
     (mk 1006 ''r1n0'', ''user1-0'', ''Nested 0'', ''room1'', Some ''r1''),
     (mk 1007 ''r1n1'', ''user1-1'', ''Nested 1'', ''room1'', Some ''r1''),
     (mk 1008 ''r1n2'', ''user1-2'', ''Nested 2'', ''room1'', Some ''r1''),
     (mk 1009 ''r2'', ''user2'', ''Reply 2'', ''room1'', Some ''root''),
     (mk 1010 ''r2n0'', ''user2-0'', ''Nested 0'', ''room1'', Some ''r2''),
     (mk 1011 ''r2n1'', ''user2-1'', ''Nested 1'', ''room1'', Some ''r2''),
     (mk 1012 ''r2n2'', ''user2-2'', ''Nested 2'', ''room1'', Some ''r2''),
     (mk 1013 ''r3'', ''user3'', ''Reply 3'', ''room1'', Some ''root''),
     (mk 1014 ''r3n0'', ''user3-0'', ''Nested 0'', ''room1'', Some ''r3''),
     (mk 1015 ''r3n1'', ''user3-1'', ''Nested 1'', ''room1'', Some ''r3''),
     (mk 1016 ''r3n2'', ''user3-2'', ''Nested 2'', ''room1'', Some ''r3''),
     (mk 1017 ''r4'', ''user4'', ''Reply 4'', ''room1'', Some ''root''),
     (mk 1018 ''r4n0'', ''user4-0'', ''Nested 0'', ''room1'', Some ''r4''),
     (mk 1019 ''r4n1'', ''user4-1'', ''Nested 1'', ''room1'', Some ''r4''),
     (mk 1020 ''r4n2'', ''user4-2'', ''Nested 2'', ''room1'', Some ''r4'')]"

definition store21 :: repository where
  "store21 = addAll thread21 new_repository"

section \<open>Properties of the message repository\<close>

lemmas eval_defs = addMessage_def added_def make_message_def deleteMessage_def editMessage_def new_repository_def Let_def
  index_room_def link_reply_def truthy_def checkRep_def has_def set_add_def getMessage_def

lemma store1_eq:
  "store1 = \<lparr>heap = (\<lambda>_. blank_message)
       (0 := \<lparr>id_m = ''m1'', username = ''alice'', text_m = ''hello'', time = ''9:00 am'',
              timestamp = 1000, room = ''room1'', edited = False, editHistory = [],
              deleted = False, parentId = None, replies = []\<rparr>),
     next_ref = 1, messages = [(''m1'', 0)], messagesByRoom = [(''room1'', [''m1''])]\<rparr>"
  by (simp add: store1_def env1_def eval_defs)

lemma store1_deleted_eq: "deleteMessage ''m1'' ''alice'' store1 = (Inr True, store1_deleted)"
  by (simp add: store1_deleted_def store1_eq eval_defs)

subsection \<open>What a successful call has done\<close>

lemma deleteMessage_True:
  assumes "deleteMessage i u s = (Inr True, s')"
  shows "\<exists>r. map_of (messages s) i = Some r \<and> username (heap s r) = u \<and> i \<noteq> []
     \<and> s' = s\<lparr>heap := (heap s)(r := (heap s r)\<lparr>deleted := True,
                                                   text_m := ''[Message deleted]''\<rparr>)\<rparr>
     \<and> checkRep s' = None"
  using assms by (auto simp: deleteMessage_def Let_def split: if_splits option.splits)

lemma editMessage_Some:
  assumes "editMessage e i newText u s = (Inr (Some r), s')"
  shows "map_of (messages s) i = Some r \<and> username (heap s r) = u \<and> \<not> deleted (heap s r)
     \<and> i \<noteq> [] \<and> newText \<noteq> []
     \<and> s' = s\<lparr>heap := (heap s)(r := (heap s r)\<lparr>editHistory := editHistory (heap s r) @
            [\<lparr>text_e = text_m (heap s r), timestamp_e = timestamp (heap s r),
              time_e = time (heap s r)\<rparr>],
          text_m := newText, edited := True, time := clock e, timestamp := now e\<rparr>)\<rparr>
     \<and> checkRep s' = None"
  using assms by (auto simp: editMessage_def Let_def split: if_splits option.splits)

subsection \<open>What \<open>checkRep\<close> checks\<close>

lemma checkRep_loop_None:
  "checkRep_loop s ids ms = None \<Longrightarrow> (i, r) \<in> set ms \<Longrightarrow>
     chronological (editHistory (heap s r)) \<and> 0 < timestamp (heap s r)"
  by (induction s ids ms rule: checkRep_loop.induct) (auto split: if_splits)

lemma checkRep_None:
  "checkRep s = None \<Longrightarrow> map_of (messages s) i = Some r \<Longrightarrow>
     chronological (editHistory (heap s r)) \<and> 0 < timestamp (heap s r)"
  unfolding checkRep_def by (rule checkRep_loop_None, assumption) (rule map_of_SomeD)

lemma chronological_sorted: "chronological h = sorted (map timestamp_e h)"
  by (induction h rule: chronological.induct) (fastforce simp: not_less)+

subsection \<open>Soft delete\<close>

text \<open>
  Claim C5. After \<open>deleteMessage(id, author)\<close> has returned \<open>true\<close> (so the requester
  is the message's author), \<open>getMessage(id)\<close> still returns the same record, its
  \<open>deleted\<close> flag is set and its text is the placeholder \<open>[Message deleted]\<close>; a later
  \<open>deleteMessage\<close> by anyone else returns \<open>false\<close> and leaves the repository, the flag
  included, as it is.
\<close>

theorem deleteMessage_soft:
  assumes "deleteMessage i u s = (Inr True, s')"
  shows "\<exists>r. getMessage s i = Some r \<and> username (heap s r) = u \<and> getMessage s' i = Some r
     \<and> deleted (heap s' r) \<and> text_m (heap s' r) = ''[Message deleted]''
     \<and> (\<forall>u'. u' \<noteq> u \<longrightarrow> deleteMessage i u' s' = (Inr False, s'))"
proof -
  from deleteMessage_True[OF assms] obtain r where
    r: "map_of (messages s) i = Some r" "username (heap s r) = u" "i \<noteq> []"
    and s': "s' = s\<lparr>heap := (heap s)(r := (heap s r)\<lparr>deleted := True,
                                                      text_m := ''[Message deleted]''\<rparr>)\<rparr>"
    by blast
  show ?thesis
    using r by (intro exI[of _ r]) (auto simp add: s' getMessage_def deleteMessage_def)
qed

theorem deleteMessage_soft_witness:
  "deleteMessage ''m1'' ''alice'' store1 = (Inr True, store1_deleted)
   \<and> getMessage store1_deleted ''m1'' = Some 0
   \<and> deleted (heap store1_deleted 0)
   \<and> text_m (heap store1_deleted 0) = ''[Message deleted]''
   \<and> deleteMessage ''m1'' ''bob'' store1_deleted = (Inr False, store1_deleted)"
proof -
  have "getMessage store1 ''m1'' = Some 0"
    by (simp add: store1_eq getMessage_def)
  with deleteMessage_soft[OF store1_deleted_eq] show ?thesis
    using store1_deleted_eq by auto
qed

subsection \<open>Requests by somebody who is not the author\<close>

text \<open>
  Claim C4, as the code has it. For a stored message with the (non-empty) id \<open>i\<close> and a
  requester \<open>u\<close> who is not its author, \<open>deleteMessage(i, u)\<close> returns \<open>false\<close>.
  \<open>editMessage(i, newText, u)\<close> returns \<open>null\<close> when \<open>newText\<close> is not empty and the
  message is not deleted; it throws when \<open>newText\<close> is empty, and it throws when the
  message is deleted, because both preconditions are checked before the author is.
  In every case the repository is left exactly as it was.
\<close>

theorem non_author_rejected:
  assumes "getMessage s i = Some r" and "i \<noteq> []" and "u \<noteq> username (heap s r)"
  shows "deleteMessage i u s = (Inr False, s)
    \<and> editMessage e i newText u s =
        (if newText = [] then (Inl (Error ''Precondition violated: newText must be non-empty''), s)
         else if deleted (heap s r)
           then (Inl (Error ''Precondition violated: cannot edit deleted message''), s)
         else (Inr None, s))"
  using assms by (auto simp: getMessage_def deleteMessage_def editMessage_def)

theorem non_author_rejected_witness:
  "getMessage store1 ''m1'' = Some 0 \<and> ''bob'' \<noteq> username (heap store1 0)
   \<and> deleteMessage ''m1'' ''bob'' store1 = (Inr False, store1)
   \<and> editMessage env2 ''m1'' ''hacked'' ''bob'' store1 = (Inr None, store1)"
proof -
  have h: "getMessage store1 ''m1'' = Some 0" "''m1'' \<noteq> []" "''bob'' \<noteq> username (heap store1 0)"
    by (simp_all add: store1_eq getMessage_def)
  have "\<not> deleted (heap store1 0)" by (simp add: store1_eq)
  with non_author_rejected[OF h, of env2 "''hacked''"] h show ?thesis by simp
qed

text \<open>
  The claim as stated fails on a deleted message: the edit of somebody who is not the
  author throws instead of returning \<open>null\<close>.
\<close>

theorem non_author_edit_deleted_counterexample:
  "getMessage store1_deleted ''m1'' = Some 0 \<and> ''bob'' \<noteq> username (heap store1_deleted 0)
   \<and> editMessage env2 ''m1'' ''hacked'' ''bob'' store1_deleted
       = (Inl (Error ''Precondition violated: cannot edit deleted message''), store1_deleted)"
  by (simp add: store1_deleted_def store1_eq env2_def eval_defs)

subsection \<open>Edit history\<close>

lemma editAll_history:
  assumes "map_of (messages s) i = Some r" and "editAll es i u s = Some s'"
  shows "editHistory (heap s' r) = editHistory (heap s r)
           @ snapshots (text_m (heap s r)) (timestamp (heap s r)) (time (heap s r)) es
       \<and> (es \<noteq> [] \<longrightarrow> edited (heap s' r) \<and> text_m (heap s' r) = snd (last es))
       \<and> (es \<noteq> [] \<longrightarrow> checkRep s' = None) \<and> messages s' = messages s"
  using assms
proof (induction es arbitrary: s)
  case Nil
  then show ?case by simp
next
  case (Cons a es)
  obtain e newText where a: "a = (e, newText)" by (cases a)
  from Cons.prems(2) obtain r' s1 where
    step: "editMessage e i newText u s = (Inr (Some r'), s1)" and rest: "editAll es i u s1 = Some s'"
    by (auto simp: a split: prod.splits sum.splits option.splits)
  note f = editMessage_Some[OF step]
  from f Cons.prems(1) have r': "r' = r" by simp
  from f have m1: "map_of (messages s1) i = Some r" by (simp add: r')
  from f have c1: "checkRep s1 = None" by blast
  have h1: "heap s1 r = (heap s r)\<lparr>editHistory := editHistory (heap s r) @
            [\<lparr>text_e = text_m (heap s r), timestamp_e = timestamp (heap s r),
              time_e = time (heap s r)\<rparr>],
          text_m := newText, edited := True, time := clock e, timestamp := now e\<rparr>"
    using f by (simp add: r')
  have ms: "messages s1 = messages s" using f by simp
  show ?case
  proof (cases "es = []")
    case True
    with rest have "s' = s1" by simp
    then show ?thesis using c1 by (simp add: a h1 ms True)
  next
    case False
    with Cons.IH[OF m1 rest] show ?thesis by (simp add: a h1 ms)
  qed
qed

text \<open>
  Claim C6. Take a repository that \<open>checkRep\<close> accepts and a sequence of edits of one
  message that all succeed. Then the message's \<open>editHistory\<close> is the old one followed by
  one entry per edit, each holding the text, timestamp and time the message had just
  before that edit; after at least one edit the message is marked \<open>edited\<close> and carries
  the last new text; and the timestamps of the history are non-decreasing from each
  entry to the next.
\<close>

theorem editHistory_chronological:
  assumes "checkRep s = None" and "getMessage s i = Some r" and "editAll es i u s = Some s'"
  shows "editHistory (heap s' r) = editHistory (heap s r)
           @ snapshots (text_m (heap s r)) (timestamp (heap s r)) (time (heap s r)) es
       \<and> (es \<noteq> [] \<longrightarrow> edited (heap s' r) \<and> text_m (heap s' r) = snd (last es))
       \<and> (\<forall>k. Suc k < length (editHistory (heap s' r)) \<longrightarrow>
             timestamp_e (editHistory (heap s' r) ! k)
               \<le> timestamp_e (editHistory (heap s' r) ! Suc k))"
proof -
  from assms(2) have m: "map_of (messages s) i = Some r" by (simp add: getMessage_def)
  note h = editAll_history[OF m assms(3)]
  have c: "checkRep s' = None"
    using h assms(1,3) by (cases "es = []") auto
  from h m have "map_of (messages s') i = Some r" by simp
  from checkRep_None[OF c this] have "sorted (map timestamp_e (editHistory (heap s' r)))"
    by (simp add: chronological_sorted)
  then have "\<forall>k. Suc k < length (editHistory (heap s' r)) \<longrightarrow>
             timestamp_e (editHistory (heap s' r) ! k)
               \<le> timestamp_e (editHistory (heap s' r) ! Suc k)"
    by (auto simp: sorted_iff_nth_Suc)
  with h show ?thesis by blast
qed

lemma store1_edited_eq:
  "editAll [(env2, ''v2''), (env3, ''v3'')] ''m1'' ''alice'' store1 = Some store1_edited"
  by (simp add: store1_edited_def store1_eq env2_def env3_def eval_defs)

theorem editHistory_chronological_witness:
  "checkRep store1 = None \<and> getMessage store1 ''m1'' = Some 0
   \<and> editAll [(env2, ''v2''), (env3, ''v3'')] ''m1'' ''alice'' store1 = Some store1_edited
   \<and> editHistory (heap store1_edited 0) =
         [\<lparr>text_e = ''hello'', timestamp_e = 1000, time_e = ''9:00 am''\<rparr>,
          \<lparr>text_e = ''v2'', timestamp_e = 2000, time_e = ''9:01 am''\<rparr>]
   \<and> edited (heap store1_edited 0) \<and> text_m (heap store1_edited 0) = ''v3''
   \<and> timestamp_e (editHistory (heap store1_edited 0) ! 0)
         \<le> timestamp_e (editHistory (heap store1_edited 0) ! 1)"
proof -
  have h: "checkRep store1 = None" "getMessage store1 ''m1'' = Some 0"
    by (simp_all add: store1_eq eval_defs)
  from editHistory_chronological[OF h store1_edited_eq] h store1_edited_eq
  show ?thesis by (simp add: store1_eq env2_def env3_def)
qed

subsection \<open>Thread depth\<close>

lemma depth_each_mono:
  assumes "\<And>c d. c \<in> set rs \<Longrightarrow> f c = Some d \<Longrightarrow> g c = Some d"
    and "depth_each f h rs mx = Some m"
  shows "depth_each g h rs mx = Some m"
  using assms by (induction rs arbitrary: mx) (auto split: if_splits option.splits)

lemma depth_each_Max:
  assumes "map f (filter (\<lambda>c. \<not> deleted (h c)) rs) = map Some ds"
  shows "depth_each f h rs mx = Some (Max (set (mx # ds)))"
  using assms
proof (induction rs arbitrary: mx ds)
  case Nil
  then show ?case by simp
next
  case (Cons c rs)
  show ?case
  proof (cases "deleted (h c)")
    case True
    with Cons show ?thesis by simp
  next
    case False
    with Cons.prems obtain d ds' where ds: "ds = d # ds'" "f c = Some d"
      "map f (filter (\<lambda>c. \<not> deleted (h c)) rs) = map Some ds'"
      by (cases ds) auto
    have "Max (set (max mx d # ds')) = Max (set (mx # d # ds'))"
      by (cases "ds' = []") (simp_all add: max.assoc)
    with Cons.IH[OF ds(3), of "max mx d"] False ds show ?thesis by simp
  qed
qed

lemma calculateDepth_mono:
  "calculateDepth n h r = Some d \<Longrightarrow> calculateDepth (Suc n) h r = Some d"
proof (induction n arbitrary: r d)
  case 0
  then show ?case by simp
next
  case (Suc n)
  show ?case
  proof (cases "replies (h r) = []")
    case True
    with Suc.prems show ?thesis by simp
  next
    case False
    with Suc.prems obtain m where m: "depth_each (calculateDepth n h) h (replies (h r)) 0 = Some m"
      and d: "d = 1 + m"
      by (auto split: option.splits)
    from depth_each_mono[OF _ m, of "calculateDepth (Suc n) h"] Suc.IH
    have "depth_each (calculateDepth (Suc n) h) h (replies (h r)) 0 = Some m" by blast
    with False d show ?thesis by (simp del: calculateDepth.simps(2) add: calculateDepth.simps(2)[of "Suc n"])
  qed
qed

lemma calculateDepth_mono_le:
  "calculateDepth n h r = Some d \<Longrightarrow> calculateDepth (n + k) h r = Some d"
proof (induction k)
  case 0
  then show ?case by simp
next
  case (Suc k)
  from calculateDepth_mono[OF Suc.IH[OF Suc.prems]] show ?case by (simp del: calculateDepth.simps)
qed

lemma depth_each_total:
  assumes "\<And>c. c \<in> set rs \<Longrightarrow> \<exists>d. f c = Some d \<and> 0 \<le> d"
  shows "\<exists>ds. map f (filter (\<lambda>c. \<not> deleted (h c)) rs) = map Some ds \<and> (\<forall>d \<in> set ds. 0 \<le> d)"
  using assms
proof (induction rs)
  case Nil
  then show ?case by simp
next
  case (Cons c rs)
  then obtain ds where ds: "map f (filter (\<lambda>c. \<not> deleted (h c)) rs) = map Some ds" "\<forall>d \<in> set ds. 0 \<le> d"
    by auto
  from Cons.prems[of c] obtain d where d: "f c = Some d" "0 \<le> d" by auto
  show ?case
  proof (cases "deleted (h c)")
    case True
    with ds show ?thesis by auto
  next
    case False
    with ds d have "map f (filter (\<lambda>c. \<not> deleted (h c)) (c # rs)) = map Some (d # ds)
       \<and> (\<forall>x \<in> set (d # ds). 0 \<le> x)" by simp
    then show ?thesis by blast
  qed
qed

lemma calculateDepth_total:
  assumes wf: "\<And>r c. r < nxt \<Longrightarrow> c \<in> set (replies (h r)) \<Longrightarrow> r < c \<and> c < nxt"
  shows "r < nxt \<Longrightarrow> nxt - r \<le> n \<Longrightarrow> \<exists>d. calculateDepth n h r = Some d \<and> 0 \<le> d"
proof (induction n arbitrary: r)
  case 0
  then show ?case by simp
next
  case (Suc n)
  show ?case
  proof (cases "replies (h r) = []")
    case True
    then show ?thesis by simp
  next
    case False
    have "\<And>c. c \<in> set (replies (h r)) \<Longrightarrow> \<exists>d. calculateDepth n h c = Some d \<and> 0 \<le> d"
    proof -
      fix c assume "c \<in> set (replies (h r))"
      with wf[OF Suc.prems(1)] have "r < c" "c < nxt" by auto
      with Suc.prems(2) have "nxt - c \<le> n" by simp
      from Suc.IH[OF \<open>c < nxt\<close> this] show "\<exists>d. calculateDepth n h c = Some d \<and> 0 \<le> d" .
    qed
    from depth_each_total[of "replies (h r)" "calculateDepth n h" h, OF this]
    obtain ds where ds: "map (calculateDepth n h) (filter (\<lambda>c. \<not> deleted (h c)) (replies (h r))) = map Some ds"
      "\<forall>d \<in> set ds. 0 \<le> d" by blast
    have "0 \<le> Max (set (0 # ds))" by simp
    with depth_each_Max[OF ds(1), of 0] False show ?thesis by simp
  qed
qed


lemma refs_ok_index: "refs_ok s \<Longrightarrow> map_of (messages s) i = Some r \<Longrightarrow> r < next_ref s"
proof -
  assume a: "refs_ok s" and m: "map_of (messages s) i = Some r"
  from a have "\<forall>p \<in> set (messages s). snd p < next_ref s"
    unfolding refs_ok_def by (rule conjunct1)
  moreover from m have "(i, r) \<in> set (messages s)" by (rule map_of_SomeD)
  ultimately show ?thesis by force
qed

lemma refs_ok_replies:
  "refs_ok s \<Longrightarrow> r < next_ref s \<Longrightarrow> c \<in> set (replies (heap s r)) \<Longrightarrow> r < c \<and> c < next_ref s"
proof -
  assume a: "refs_ok s" and r: "r < next_ref s" and c: "c \<in> set (replies (heap s r))"
  from a have "\<forall>r < next_ref s. \<forall>c \<in> set (replies (heap s r)). r < c \<and> c < next_ref s"
    unfolding refs_ok_def by (rule conjunct2)
  then have "r < next_ref s \<longrightarrow> (\<forall>c \<in> set (replies (heap s r)). r < c \<and> c < next_ref s)"
    by (rule spec)
  with r have "\<forall>c \<in> set (replies (heap s r)). r < c \<and> c < next_ref s" by (rule rev_mp)
  then show ?thesis using c by (rule bspec)
qed

lemma calculateDepth_enough:
  assumes ok: "refs_ok s" and n: "next_ref s \<le> n" and r: "r < next_ref s"
  shows "\<exists>d. calculateDepth n (heap s) r = Some d \<and> 0 \<le> d
           \<and> calculateDepth (next_ref s) (heap s) r = Some d"
proof -
  have "\<exists>d. calculateDepth (next_ref s) (heap s) r = Some d \<and> 0 \<le> d"
  proof (rule calculateDepth_total[where nxt="next_ref s"])
    show "\<And>r c. r < next_ref s \<Longrightarrow> c \<in> set (replies (heap s r)) \<Longrightarrow> r < c \<and> c < next_ref s"
      by (rule refs_ok_replies[OF ok])
    show "r < next_ref s" by (rule r)
    show "next_ref s - r \<le> next_ref s" by simp
  qed
  then obtain d where d: "calculateDepth (next_ref s) (heap s) r = Some d" "0 \<le> d" by blast
  have "calculateDepth (next_ref s + (n - next_ref s)) (heap s) r = Some d"
    by (rule calculateDepth_mono_le[OF d(1)])
  with n have "calculateDepth n (heap s) r = Some d" by (simp del: calculateDepth.simps)
  with d show ?thesis by blast
qed

text \<open>
  Claim C3, as the code has it. In a repository whose replies are allocated after their
  parents, and with fuel for its whole heap, \<open>getThreadDepth(id)\<close> returns, and the
  same value for any larger fuel. It returns \<open>-1\<close> exactly when \<open>id\<close> is unknown. For
  an existing message it returns 0 when the \<open>replies\<close> array is empty, and otherwise
  1 plus the maximum of 0 and the depths \<open>ds\<close> of the replies that are not deleted: a
  message whose replies are all deleted has depth 1, not 0. The result is never
  negative for an existing message.
\<close>

theorem getThreadDepth_spec:
  assumes "refs_ok s" and "next_ref s \<le> n"
  shows "(getThreadDepth n s i = Some (- 1) \<longleftrightarrow> getMessage s i = None)
    \<and> getThreadDepth n s i = getThreadDepth (next_ref s) s i
    \<and> (\<forall>r. getMessage s i = Some r \<longrightarrow>
         (\<exists>ds. map (calculateDepth n (heap s)) (filter (\<lambda>c. \<not> deleted (heap s c)) (replies (heap s r)))
                 = map Some ds
             \<and> (\<forall>d \<in> set ds. 0 \<le> d)
             \<and> getThreadDepth n s i
                 = Some (if replies (heap s r) = [] then 0 else 1 + Max (set (0 # ds)))))
    \<and> (getMessage s i \<noteq> None \<longrightarrow> (\<exists>d. getThreadDepth n s i = Some d \<and> 0 \<le> d))"
proof (cases "getMessage s i")
  case None
  then show ?thesis by (simp add: getThreadDepth_def getMessage_def)
next
  case (Some r)
  then have m: "map_of (messages s) i = Some r" by (simp add: getMessage_def)
  have r: "r < next_ref s" by (rule refs_ok_index[OF assms(1) m])
  have kids: "\<And>c. c \<in> set (replies (heap s r)) \<Longrightarrow>
      \<exists>d. calculateDepth n (heap s) c = Some d \<and> 0 \<le> d"
  proof -
    fix c assume "c \<in> set (replies (heap s r))"
    from refs_ok_replies[OF assms(1) r this] have c: "c < next_ref s" by simp
    from calculateDepth_enough[OF assms c]
    show "\<exists>d. calculateDepth n (heap s) c = Some d \<and> 0 \<le> d" by blast
  qed
  from depth_each_total[of "replies (heap s r)" "calculateDepth n (heap s)" "heap s", OF kids]
  obtain ds where ds:
    "map (calculateDepth n (heap s)) (filter (\<lambda>c. \<not> deleted (heap s c)) (replies (heap s r))) = map Some ds"
    "\<forall>d \<in> set ds. 0 \<le> d" by blast
  from calculateDepth_enough[OF assms r]
  obtain d where d: "calculateDepth (next_ref s) (heap s) r = Some d" "0 \<le> d"
    and dn: "calculateDepth n (heap s) r = Some d" by blast
  have dk: "calculateDepth (Suc n) (heap s) r = Some d" by (rule calculateDepth_mono[OF dn])
  have "calculateDepth (Suc n) (heap s) r
      = Some (if replies (heap s r) = [] then 0 else 1 + Max (set (0 # ds)))"
    using depth_each_Max[OF ds(1), of 0] by simp
  with dk have val: "d = (if replies (heap s r) = [] then 0 else 1 + Max (set (0 # ds)))" by simp
  from d dn val ds m Some show ?thesis
    by (auto simp: getThreadDepth_def simp del: calculateDepth.simps)
qed

subsection \<open>The invariants of the reachable repositories\<close>

lemma index_ok_listed:
  "index_ok s \<Longrightarrow> map_of (messages s) i = Some r \<Longrightarrow>
     \<exists>ids. map_of (messagesByRoom s) (room (heap s r)) = Some ids \<and> i \<in> set ids"
  unfolding index_ok_def by blast

lemma index_ok_room:
  "index_ok s \<Longrightarrow> map_of (messagesByRoom s) rm = Some ids \<Longrightarrow> i \<in> set ids \<Longrightarrow>
     \<exists>r. map_of (messages s) i = Some r \<and> room (heap s r) = rm"
  unfolding index_ok_def by blast

lemma set_map_filter: "set (List.map_filter f xs) = {y. \<exists>x \<in> set xs. f x = Some y}"
  by (induction xs) (auto simp: List.map_filter_simps split: option.splits)

lemma lookup_live_Some:
  "lookup_live s i = Some r \<longleftrightarrow> map_of (messages s) i = Some r \<and> \<not> deleted (heap s r)"
  by (auto simp: lookup_live_def split: option.splits)

lemma set_getMessagesForRoom:
  "set (getMessagesForRoom s rm) =
     {r. \<exists>ids i. map_of (messagesByRoom s) rm = Some ids \<and> i \<in> set ids
           \<and> map_of (messages s) i = Some r \<and> \<not> deleted (heap s r)}"
  by (cases "map_of (messagesByRoom s) rm")
     (auto simp: getMessagesForRoom_def set_map_filter lookup_live_Some)

lemma getMessagesForRoom_complete:
  assumes "index_ok s"
  shows "set (getMessagesForRoom s rm) =
     {r. \<exists>i. map_of (messages s) i = Some r \<and> room (heap s r) = rm \<and> \<not> deleted (heap s r)}"
proof (rule set_eqI, rule iffI)
  fix r assume "r \<in> set (getMessagesForRoom s rm)"
  then obtain ids i where a: "map_of (messagesByRoom s) rm = Some ids" "i \<in> set ids"
    "map_of (messages s) i = Some r" "\<not> deleted (heap s r)"
    unfolding set_getMessagesForRoom by blast
  from index_ok_room[OF assms a(1,2)] a(3) have "room (heap s r) = rm" by auto
  with a show "r \<in> {r. \<exists>i. map_of (messages s) i = Some r \<and> room (heap s r) = rm \<and> \<not> deleted (heap s r)}"
    by blast
next
  fix r assume "r \<in> {r. \<exists>i. map_of (messages s) i = Some r \<and> room (heap s r) = rm \<and> \<not> deleted (heap s r)}"
  then obtain i where a: "map_of (messages s) i = Some r" "room (heap s r) = rm" "\<not> deleted (heap s r)"
    by blast
  from index_ok_listed[OF assms a(1)] a(2) obtain ids where
    "map_of (messagesByRoom s) rm = Some ids" "i \<in> set ids" by auto
  with a show "r \<in> set (getMessagesForRoom s rm)"
    unfolding set_getMessagesForRoom by blast
qed

lemma map_of_update: "map_of (AList.update k v al) = (map_of al)(k \<mapsto> v)"
  by (rule update_conv')

lemma set_update: "p \<in> set (AList.update k v al) \<Longrightarrow> p = (k, v) \<or> p \<in> set al"
  by (induction al) (auto split: if_splits)

lemma added_fields:
  "messages (added e u t rm pid s) = AList.update (generateId e) (next_ref s) (messages s)"
  "next_ref (added e u t rm pid s) = Suc (next_ref s)"
  "messagesByRoom (added e u t rm pid s) =
     AList.update rm
       (set_add (generateId e) (case map_of (messagesByRoom s) rm of None \<Rightarrow> [] | Some ids \<Rightarrow> ids))
       (messagesByRoom s)"
  by (simp_all add: added_def Let_def link_reply_def index_room_def split: option.splits)

lemma added_heap_root:
  "\<not> truthy pid \<Longrightarrow>
     heap (added e u t rm pid s) = (heap s)(next_ref s := make_message e u t rm pid)"
  by (simp add: added_def Let_def link_reply_def index_room_def)

lemma added_heap_reply:
  assumes "truthy pid" and "map_of (messages s) (the pid) = Some p" and "generateId e \<noteq> the pid"
  shows "heap (added e u t rm pid s) =
     (let h1 = (heap s)(next_ref s := make_message e u t rm pid)
      in h1(p := (h1 p)\<lparr>replies := replies (h1 p) @ [next_ref s]\<rparr>))"
  using assms
  by (simp add: added_def Let_def link_reply_def index_room_def map_of_update)

lemma added_heap_old:
  assumes "refs_ok s" and "map_of (messages s) (generateId e) = None"
    and "truthy pid \<longrightarrow> has (messages s) (the pid)" and "x < next_ref s"
  shows "room (heap (added e u t rm pid s) x) = room (heap s x)"
    and "deleted (heap (added e u t rm pid s) x) = deleted (heap s x)"
    and "set (replies (heap (added e u t rm pid s) x)) \<subseteq> insert (next_ref s) (set (replies (heap s x)))"
proof -
  show "room (heap (added e u t rm pid s) x) = room (heap s x)"
  proof (cases "truthy pid")
    case False
    then show ?thesis using assms(4) by (simp add: added_heap_root)
  next
    case True
    with assms(3) obtain p where p: "map_of (messages s) (the pid) = Some p" by (auto simp: has_def)
    with assms(2) have "generateId e \<noteq> the pid" by auto
    from added_heap_reply[OF True p this] assms(4) show ?thesis by (simp add: Let_def)
  qed
  show "deleted (heap (added e u t rm pid s) x) = deleted (heap s x)"
  proof (cases "truthy pid")
    case False
    then show ?thesis using assms(4) by (simp add: added_heap_root)
  next
    case True
    with assms(3) obtain p where p: "map_of (messages s) (the pid) = Some p" by (auto simp: has_def)
    with assms(2) have "generateId e \<noteq> the pid" by auto
    from added_heap_reply[OF True p this] assms(4) show ?thesis by (simp add: Let_def)
  qed
  show "set (replies (heap (added e u t rm pid s) x)) \<subseteq> insert (next_ref s) (set (replies (heap s x)))"
  proof (cases "truthy pid")
    case False
    then show ?thesis using assms(4) by (auto simp add: added_heap_root)
  next
    case True
    with assms(3) obtain p where p: "map_of (messages s) (the pid) = Some p" by (auto simp: has_def)
    with assms(2) have "generateId e \<noteq> the pid" by auto
    from added_heap_reply[OF True p this] assms(4) show ?thesis by (auto simp add: Let_def)
  qed
qed

lemma added_heap_new:
  assumes "refs_ok s" and "map_of (messages s) (generateId e) = None"
    and "truthy pid \<longrightarrow> has (messages s) (the pid)"
  shows "heap (added e u t rm pid s) (next_ref s) = make_message e u t rm pid"
proof (cases "truthy pid")
  case False
  then show ?thesis by (simp add: added_heap_root)
next
  case True
  with assms(3) obtain p where p: "map_of (messages s) (the pid) = Some p" by (auto simp: has_def)
  with assms(2) have ne: "generateId e \<noteq> the pid" by auto
  from refs_ok_index[OF assms(1) p] have "p \<noteq> next_ref s" by simp
  with added_heap_reply[OF True p ne] show ?thesis by (simp add: Let_def)
qed

lemma set_set_add: "set (set_add x xs) = insert x (set xs)"
  by (auto simp: set_add_def)

lemma refs_okI:
  assumes "\<And>i r. (i, r) \<in> set (messages s) \<Longrightarrow> r < next_ref s"
    and "\<And>r c. r < next_ref s \<Longrightarrow> c \<in> set (replies (heap s r)) \<Longrightarrow> r < c \<and> c < next_ref s"
  shows "refs_ok s"
  unfolding refs_ok_def
proof (rule conjI)
  show "\<forall>p \<in> set (messages s). snd p < next_ref s"
  proof
    fix p assume "p \<in> set (messages s)"
    then have "(fst p, snd p) \<in> set (messages s)" by simp
    then show "snd p < next_ref s" by (rule assms(1))
  qed
  show "\<forall>r < next_ref s. \<forall>c \<in> set (replies (heap s r)). r < c \<and> c < next_ref s"
  proof (intro allI impI ballI)
    fix r c assume "r < next_ref s" "c \<in> set (replies (heap s r))"
    then show "r < c \<and> c < next_ref s" by (rule assms(2))
  qed
qed

lemma refs_ok_pair: "refs_ok s \<Longrightarrow> (i, r) \<in> set (messages s) \<Longrightarrow> r < next_ref s"
proof -
  assume a: "refs_ok s" and m: "(i, r) \<in> set (messages s)"
  from a have "\<forall>p \<in> set (messages s). snd p < next_ref s"
    unfolding refs_ok_def by (rule conjunct1)
  from bspec[OF this m] show ?thesis by simp
qed

lemma refs_ok_added:
  assumes ok: "refs_ok s" and fresh: "map_of (messages s) (generateId e) = None"
    and par: "truthy pid \<longrightarrow> has (messages s) (the pid)"
  shows "refs_ok (added e u t rm pid s)"
proof (rule refs_okI)
  fix i r assume "(i, r) \<in> set (messages (added e u t rm pid s))"
  then have "(i, r) = (generateId e, next_ref s) \<or> (i, r) \<in> set (messages s)"
    unfolding added_fields by (rule set_update)
  then show "r < next_ref (added e u t rm pid s)"
  proof
    assume "(i, r) = (generateId e, next_ref s)"
    then show ?thesis by (simp add: added_fields)
  next
    assume "(i, r) \<in> set (messages s)"
    from refs_ok_pair[OF ok this] show ?thesis by (simp add: added_fields)
  qed
next
  fix r c
  assume r: "r < next_ref (added e u t rm pid s)"
    and c: "c \<in> set (replies (heap (added e u t rm pid s) r))"
  show "r < c \<and> c < next_ref (added e u t rm pid s)"
  proof (cases "r = next_ref s")
    case True
    with c added_heap_new[OF ok fresh par, of u t rm] show ?thesis
      by (simp add: make_message_def)
  next
    case False
    with r have r': "r < next_ref s" by (simp add: added_fields)
    from added_heap_old(3)[OF ok fresh par r', of u t rm] c
    have "c = next_ref s \<or> c \<in> set (replies (heap s r))" by auto
    then show ?thesis
    proof
      assume "c = next_ref s"
      with r' show ?thesis by (simp add: added_fields)
    next
      assume "c \<in> set (replies (heap s r))"
      from refs_ok_replies[OF ok r' this] show ?thesis by (simp add: added_fields)
    qed
  qed
qed

lemma index_okI:
  assumes "\<And>i r. map_of (messages s) i = Some r \<Longrightarrow>
        \<exists>ids. map_of (messagesByRoom s) (room (heap s r)) = Some ids \<and> i \<in> set ids"
    and "\<And>rm ids i. map_of (messagesByRoom s) rm = Some ids \<Longrightarrow> i \<in> set ids \<Longrightarrow>
        \<exists>r. map_of (messages s) i = Some r \<and> room (heap s r) = rm"
  shows "index_ok s"
  unfolding index_ok_def using assms by blast

lemma index_ok_added:
  assumes ok: "refs_ok s" and iok: "index_ok s" and fresh: "map_of (messages s) (generateId e) = None"
    and par: "truthy pid \<longrightarrow> has (messages s) (the pid)"
  shows "index_ok (added e u t rm pid s)"
proof (rule index_okI)
  let ?s' = "added e u t rm pid s"
  let ?old = "case map_of (messagesByRoom s) rm of None \<Rightarrow> [] | Some ids \<Rightarrow> ids"
  have rooms: "map_of (messagesByRoom ?s') = (map_of (messagesByRoom s))(rm \<mapsto> set_add (generateId e) ?old)"
    by (simp add: added_fields map_of_update)
  have msgs: "map_of (messages ?s') = (map_of (messages s))(generateId e \<mapsto> next_ref s)"
    by (simp add: added_fields map_of_update)
  have new: "room (heap ?s' (next_ref s)) = rm"
    using added_heap_new[OF ok fresh par, of u t rm] by (simp add: make_message_def)
  {
    fix i r assume a: "map_of (messages ?s') i = Some r"
    show "\<exists>ids. map_of (messagesByRoom ?s') (room (heap ?s' r)) = Some ids \<and> i \<in> set ids"
    proof (cases "i = generateId e")
      case True
      with a msgs have "r = next_ref s" by simp
      with new True show ?thesis by (simp add: rooms set_set_add)
    next
      case False
      with a msgs have m: "map_of (messages s) i = Some r" by simp
      from refs_ok_index[OF ok m] have r: "r < next_ref s" .
      from added_heap_old(1)[OF ok fresh par r, of u t rm]
      have rr: "room (heap ?s' r) = room (heap s r)" .
      from index_ok_listed[OF iok m] obtain ids where
        ids: "map_of (messagesByRoom s) (room (heap s r)) = Some ids" "i \<in> set ids" by blast
      show ?thesis
      proof (cases "room (heap s r) = rm")
        case True
        with ids show ?thesis by (simp add: rr rooms set_set_add)
      next
        case False
        with ids show ?thesis by (simp add: rr rooms)
      qed
    qed
  }
  {
    fix rm' ids i
    assume a: "map_of (messagesByRoom ?s') rm' = Some ids" and i: "i \<in> set ids"
    have old: "\<And>ids0. map_of (messagesByRoom s) rm' = Some ids0 \<Longrightarrow> i \<in> set ids0 \<Longrightarrow>
        \<exists>r. map_of (messages ?s') i = Some r \<and> room (heap ?s' r) = rm'"
    proof -
      fix ids0 assume b: "map_of (messagesByRoom s) rm' = Some ids0" "i \<in> set ids0"
      from index_ok_room[OF iok b] obtain r where
        r: "map_of (messages s) i = Some r" "room (heap s r) = rm'" by blast
      with fresh have "i \<noteq> generateId e" by auto
      with r msgs have m': "map_of (messages ?s') i = Some r" by simp
      from refs_ok_index[OF ok r(1)] have "r < next_ref s" .
      from added_heap_old(1)[OF ok fresh par this, of u t rm] r(2)
      have "room (heap ?s' r) = rm'" by simp
      with m' show "\<exists>r. map_of (messages ?s') i = Some r \<and> room (heap ?s' r) = rm'" by blast
    qed
    show "\<exists>r. map_of (messages ?s') i = Some r \<and> room (heap ?s' r) = rm'"
    proof (cases "rm' = rm")
      case False
      with a rooms have "map_of (messagesByRoom s) rm' = Some ids" by simp
      from old[OF this i] show ?thesis .
    next
      case True
      with a rooms have ids: "ids = set_add (generateId e) ?old" by simp
      show ?thesis
      proof (cases "i = generateId e")
        case True
        with msgs new \<open>rm' = rm\<close> show ?thesis by simp
      next
        case False
        with i ids have "i \<in> set ?old" by (simp add: set_set_add)
        then obtain ids0 where "map_of (messagesByRoom s) rm = Some ids0" "i \<in> set ids0"
          by (cases "map_of (messagesByRoom s) rm") auto
        with old[of ids0] True show ?thesis by simp
      qed
    qed
  }
qed

lemma pruned_refl: "pruned h h"
  by (simp add: pruned_def)

lemma pruned_trans: "pruned h h1 \<Longrightarrow> pruned h1 h2 \<Longrightarrow> pruned h h2"
  unfolding pruned_def
proof (intro allI conjI)
  fix x
  assume a: "\<forall>x. h1 x = (h x)\<lparr>replies := replies (h1 x)\<rparr> \<and> set (replies (h1 x)) \<subseteq> set (replies (h x))"
    and b: "\<forall>x. h2 x = (h1 x)\<lparr>replies := replies (h2 x)\<rparr> \<and> set (replies (h2 x)) \<subseteq> set (replies (h1 x))"
  from a have a1: "h1 x = (h x)\<lparr>replies := replies (h1 x)\<rparr>"
    and a2: "set (replies (h1 x)) \<subseteq> set (replies (h x))" by blast+
  from b have b1: "h2 x = (h1 x)\<lparr>replies := replies (h2 x)\<rparr>"
    and b2: "set (replies (h2 x)) \<subseteq> set (replies (h1 x))" by blast+
  have "h2 x = ((h x)\<lparr>replies := replies (h1 x)\<rparr>)\<lparr>replies := replies (h2 x)\<rparr>"
    by (subst b1, subst a1) simp
  then show "h2 x = (h x)\<lparr>replies := replies (h2 x)\<rparr>" by simp
  from a2 b2 show "set (replies (h2 x)) \<subseteq> set (replies (h x))" by blast
qed

lemma pruned_update:
  "set kept \<subseteq> set (replies (h r)) \<Longrightarrow> pruned h (h(r := (h r)\<lparr>replies := kept\<rparr>))"
  by (simp add: pruned_def)

lemma pruned_fields:
  assumes "pruned h h'"
  shows "room (h' x) = room (h x)" and "deleted (h' x) = deleted (h x)"
    and "text_m (h' x) = text_m (h x)" and "id_m (h' x) = id_m (h x)"
    and "set (replies (h' x)) \<subseteq> set (replies (h x))"
proof -
  from assms have a: "h' x = (h x)\<lparr>replies := replies (h' x)\<rparr>"
    and b: "set (replies (h' x)) \<subseteq> set (replies (h x))"
    unfolding pruned_def by blast+
  show "room (h' x) = room (h x)" by (subst a) simp
  show "deleted (h' x) = deleted (h x)" by (subst a) simp
  show "text_m (h' x) = text_m (h x)" by (subst a) simp
  show "id_m (h' x) = id_m (h x)" by (subst a) simp
  show "set (replies (h' x)) \<subseteq> set (replies (h x))" by (rule b)
qed

lemma populate_each_pruned:
  assumes "\<And>h r h'. rec h r = Some h' \<Longrightarrow> pruned h h'"
  shows "populate_each rec rs h = Some h' \<Longrightarrow> pruned h h'"
proof (induction rs arbitrary: h)
  case Nil
  then show ?case by (simp add: pruned_refl)
next
  case (Cons r rs)
  then obtain h1 where h1: "rec h r = Some h1" "populate_each rec rs h1 = Some h'"
    by (auto split: option.splits)
  from assms[OF h1(1)] Cons.IH[OF h1(2)] show ?case by (rule pruned_trans)
qed

lemma populateReplies_pruned: "populateReplies n h r = Some h' \<Longrightarrow> pruned h h'"
proof (induction n arbitrary: h r h')
  case 0
  then show ?case by simp
next
  case (Suc n)
  show ?case
  proof (cases "replies (h r) = []")
    case True
    with Suc.prems show ?thesis by (simp add: pruned_refl)
  next
    case False
    let ?kept = "filter (\<lambda>reply. \<not> deleted (h reply)) (replies (h r))"
    from Suc.prems False obtain h1 where
      h1: "populate_each (populateReplies n) ?kept h = Some h1"
      and h': "h' = h1(r := (h1 r)\<lparr>replies := ?kept\<rparr>)"
      by (auto simp: Let_def split: option.splits)
    have p1: "pruned h h1" by (rule populate_each_pruned[OF Suc.IH h1])
    have k: "set ?kept \<subseteq> set (replies (h r))" by auto
    from p1 have e: "h1 r = (h r)\<lparr>replies := replies (h1 r)\<rparr>"
      unfolding pruned_def by blast
    have e': "(h1 r)\<lparr>replies := ?kept\<rparr> = (h r)\<lparr>replies := ?kept\<rparr>"
      by (subst e) simp
    show ?thesis
      unfolding pruned_def
    proof (intro allI)
      fix x
      show "h' x = (h x)\<lparr>replies := replies (h' x)\<rparr> \<and> set (replies (h' x)) \<subseteq> set (replies (h x))"
      proof (cases "x = r")
        case True
        then have "h' x = (h r)\<lparr>replies := ?kept\<rparr>" by (simp add: h' e')
        with True k show ?thesis by simp
      next
        case False
        then have "h' x = h1 x" by (simp add: h')
        with p1 show ?thesis unfolding pruned_def by simp
      qed
    qed
  qed
qed

lemma refs_ok_pruned:
  assumes "refs_ok s" and "pruned (heap s) h'"
  shows "refs_ok (s\<lparr>heap := h'\<rparr>)"
proof (rule refs_okI)
  fix i r assume "(i, r) \<in> set (messages (s\<lparr>heap := h'\<rparr>))"
  then have "(i, r) \<in> set (messages s)" by simp
  from refs_ok_pair[OF assms(1) this] show "r < next_ref (s\<lparr>heap := h'\<rparr>)" by simp
next
  fix r c assume r: "r < next_ref (s\<lparr>heap := h'\<rparr>)" and c: "c \<in> set (replies (heap (s\<lparr>heap := h'\<rparr>) r))"
  from r have r': "r < next_ref s" by simp
  from c pruned_fields(5)[OF assms(2), of r] have "c \<in> set (replies (heap s r))" by auto
  from refs_ok_replies[OF assms(1) r' this] show "r < c \<and> c < next_ref (s\<lparr>heap := h'\<rparr>)" by simp
qed

lemma index_ok_pruned:
  assumes "index_ok s" and "pruned (heap s) h'"
  shows "index_ok (s\<lparr>heap := h'\<rparr>)"
proof (rule index_okI)
  fix i r assume "map_of (messages (s\<lparr>heap := h'\<rparr>)) i = Some r"
  then have "map_of (messages s) i = Some r" by simp
  from index_ok_listed[OF assms(1) this]
  show "\<exists>ids. map_of (messagesByRoom (s\<lparr>heap := h'\<rparr>)) (room (heap (s\<lparr>heap := h'\<rparr>) r)) = Some ids \<and> i \<in> set ids"
    by (simp add: pruned_fields(1)[OF assms(2)])
next
  fix rm ids i
  assume "map_of (messagesByRoom (s\<lparr>heap := h'\<rparr>)) rm = Some ids" "i \<in> set ids"
  then have "map_of (messagesByRoom s) rm = Some ids" "i \<in> set ids" by simp_all
  from index_ok_room[OF assms(1) this]
  show "\<exists>r. map_of (messages (s\<lparr>heap := h'\<rparr>)) i = Some r \<and> room (heap (s\<lparr>heap := h'\<rparr>) r) = rm"
    by (simp add: pruned_fields(1)[OF assms(2)])
qed

lemma refs_ok_update:
  assumes "refs_ok s" and "replies m' = replies (heap s r)"
  shows "refs_ok (s\<lparr>heap := (heap s)(r := m')\<rparr>)"
proof (rule refs_okI)
  fix i x assume "(i, x) \<in> set (messages (s\<lparr>heap := (heap s)(r := m')\<rparr>))"
  then have "(i, x) \<in> set (messages s)" by simp
  from refs_ok_pair[OF assms(1) this] show "x < next_ref (s\<lparr>heap := (heap s)(r := m')\<rparr>)" by simp
next
  fix x c assume x: "x < next_ref (s\<lparr>heap := (heap s)(r := m')\<rparr>)"
    and c: "c \<in> set (replies (heap (s\<lparr>heap := (heap s)(r := m')\<rparr>) x))"
  from x have x': "x < next_ref s" by simp
  from c assms(2) have "c \<in> set (replies (heap s x))" by (cases "x = r") simp_all
  from refs_ok_replies[OF assms(1) x' this]
  show "x < c \<and> c < next_ref (s\<lparr>heap := (heap s)(r := m')\<rparr>)" by simp
qed

lemma index_ok_update:
  assumes "index_ok s" and "room m' = room (heap s r)"
  shows "index_ok (s\<lparr>heap := (heap s)(r := m')\<rparr>)"
proof (rule index_okI)
  fix i x assume "map_of (messages (s\<lparr>heap := (heap s)(r := m')\<rparr>)) i = Some x"
  then have "map_of (messages s) i = Some x" by simp
  from index_ok_listed[OF assms(1) this] assms(2)
  show "\<exists>ids. map_of (messagesByRoom (s\<lparr>heap := (heap s)(r := m')\<rparr>))
          (room (heap (s\<lparr>heap := (heap s)(r := m')\<rparr>) x)) = Some ids \<and> i \<in> set ids"
    by (cases "x = r") simp_all
next
  fix rm ids i
  assume "map_of (messagesByRoom (s\<lparr>heap := (heap s)(r := m')\<rparr>)) rm = Some ids" "i \<in> set ids"
  then have "map_of (messagesByRoom s) rm = Some ids" "i \<in> set ids" by simp_all
  from index_ok_room[OF assms(1) this] obtain x where
    x: "map_of (messages s) i = Some x" "room (heap s x) = rm" by blast
  with assms(2) have "room (heap (s\<lparr>heap := (heap s)(r := m')\<rparr>) x) = rm" by (cases "x = r") simp_all
  with x(1) show "\<exists>x. map_of (messages (s\<lparr>heap := (heap s)(r := m')\<rparr>)) i = Some x
      \<and> room (heap (s\<lparr>heap := (heap s)(r := m')\<rparr>) x) = rm" by simp
qed

lemma refs_ok_new: "refs_ok new_repository"
  by (rule refs_okI) (simp_all add: new_repository_def)

lemma index_ok_new: "index_ok new_repository"
  by (rule index_okI) (simp_all add: new_repository_def)

lemma addMessage_snd:
  "snd (addMessage e u t rm pid s) = s
   \<or> (snd (addMessage e u t rm pid s) = added e u t rm pid s
       \<and> (truthy pid \<longrightarrow> has (messages s) (the pid)))"
  by (simp add: addMessage_def split: option.splits)

lemma editMessage_snd:
  "snd (editMessage e i t u s) = s
   \<or> (\<exists>r m'. snd (editMessage e i t u s) = s\<lparr>heap := (heap s)(r := m')\<rparr>
        \<and> replies m' = replies (heap s r) \<and> room m' = room (heap s r))"
proof (cases "i \<noteq> [] \<and> t \<noteq> [] \<and> (\<exists>r. map_of (messages s) i = Some r
            \<and> \<not> deleted (heap s r) \<and> username (heap s r) = u)")
  case False
  then have "snd (editMessage e i t u s) = s"
    by (auto simp: editMessage_def split: option.splits)
  then show ?thesis ..
next
  case True
  then obtain r where r: "map_of (messages s) i = Some r" "\<not> deleted (heap s r)"
    "username (heap s r) = u" "i \<noteq> []" "t \<noteq> []" by blast
  define m' where "m' = (heap s r)\<lparr>editHistory := editHistory (heap s r) @
            [\<lparr>text_e = text_m (heap s r), timestamp_e = timestamp (heap s r),
              time_e = time (heap s r)\<rparr>],
          text_m := t, edited := True, time := clock e, timestamp := now e\<rparr>"
  have "snd (editMessage e i t u s) = s\<lparr>heap := (heap s)(r := m')\<rparr>"
    using r by (simp add: editMessage_def Let_def m'_def split: option.splits)
  moreover have "replies m' = replies (heap s r)" "room m' = room (heap s r)"
    by (simp_all add: m'_def)
  ultimately show ?thesis by blast
qed

lemma deleteMessage_snd:
  "snd (deleteMessage i u s) = s
   \<or> (\<exists>r m'. snd (deleteMessage i u s) = s\<lparr>heap := (heap s)(r := m')\<rparr>
        \<and> replies m' = replies (heap s r) \<and> room m' = room (heap s r))"
proof (cases "i \<noteq> [] \<and> (\<exists>r. map_of (messages s) i = Some r \<and> username (heap s r) = u)")
  case False
  then have "snd (deleteMessage i u s) = s"
    by (auto simp: deleteMessage_def split: option.splits)
  then show ?thesis ..
next
  case True
  then obtain r where r: "map_of (messages s) i = Some r" "username (heap s r) = u" "i \<noteq> []"
    by blast
  define m' where "m' = (heap s r)\<lparr>deleted := True, text_m := ''[Message deleted]''\<rparr>"
  have "snd (deleteMessage i u s) = s\<lparr>heap := (heap s)(r := m')\<rparr>"
    using r by (simp add: deleteMessage_def Let_def m'_def split: option.splits)
  moreover have "replies m' = replies (heap s r)" "room m' = room (heap s r)"
    by (simp_all add: m'_def)
  ultimately show ?thesis by blast
qed

lemma getMessageThread_snd:
  assumes "getMessageThread n s i = Some (m, s')"
  shows "\<exists>h'. s' = s\<lparr>heap := h'\<rparr> \<and> pruned (heap s) h' \<and> messages s' = messages s"
proof (cases "map_of (messages s) i")
  case None
  with assms have "s' = s" by (simp add: getMessageThread_def)
  then have "s' = s\<lparr>heap := heap s\<rparr>" by simp
  with pruned_refl[of "heap s"] show ?thesis by force
next
  case (Some r)
  show ?thesis
  proof (cases "replies (heap s r) = []")
    case True
    with assms Some have "s' = s" by (simp add: getMessageThread_def)
    then have "s' = s\<lparr>heap := heap s\<rparr>" by simp
    with pruned_refl[of "heap s"] show ?thesis by (intro exI[of _ "heap s"]) simp
  next
    case False
    with assms Some obtain h' where
      h': "populate_each (populateReplies n)
             (filter (\<lambda>reply. \<not> deleted (heap s reply)) (replies (heap s r))) (heap s) = Some h'"
      and s': "s' = s\<lparr>heap := h'\<rparr>"
      by (auto simp: getMessageThread_def Let_def split: option.splits)
    have "pruned (heap s) h'"
      by (rule populate_each_pruned[OF populateReplies_pruned h'])
    with s' show ?thesis by (intro exI[of _ h']) simp
  qed
qed

theorem reachable_ok: "reachable s \<Longrightarrow> refs_ok s \<and> index_ok s"
proof (induction rule: reachable.induct)
  case start
  show ?case using refs_ok_new index_ok_new by simp
next
  case (add s e u t rm pid)
  then have ok: "refs_ok s" "index_ok s" and fresh: "map_of (messages s) (generateId e) = None"
    by (simp_all add: has_def)
  from addMessage_snd[of e u t rm pid s] show ?case
  proof
    assume "snd (addMessage e u t rm pid s) = s"
    with ok show ?thesis by simp
  next
    assume a: "snd (addMessage e u t rm pid s) = added e u t rm pid s
       \<and> (truthy pid \<longrightarrow> has (messages s) (the pid))"
    then have par: "truthy pid \<longrightarrow> has (messages s) (the pid)" by simp
    from refs_ok_added[OF ok(1) fresh par] index_ok_added[OF ok fresh par] a
    show ?thesis by simp
  qed
next
  case (edit s e i t u)
  then have ok: "refs_ok s" "index_ok s" by simp_all
  from editMessage_snd[of e i t u s] show ?case
  proof
    assume "snd (editMessage e i t u s) = s"
    with ok show ?thesis by simp
  next
    assume "\<exists>r m'. snd (editMessage e i t u s) = s\<lparr>heap := (heap s)(r := m')\<rparr>
        \<and> replies m' = replies (heap s r) \<and> room m' = room (heap s r)"
    then obtain r m' where a: "snd (editMessage e i t u s) = s\<lparr>heap := (heap s)(r := m')\<rparr>"
      "replies m' = replies (heap s r)" "room m' = room (heap s r)" by blast
    from refs_ok_update[OF ok(1) a(2)] index_ok_update[OF ok(2) a(3)] a(1)
    show ?thesis by simp
  qed
next
  case (delete s i u)
  then have ok: "refs_ok s" "index_ok s" by simp_all
  from deleteMessage_snd[of i u s] show ?case
  proof
    assume "snd (deleteMessage i u s) = s"
    with ok show ?thesis by simp
  next
    assume "\<exists>r m'. snd (deleteMessage i u s) = s\<lparr>heap := (heap s)(r := m')\<rparr>
        \<and> replies m' = replies (heap s r) \<and> room m' = room (heap s r)"
    then obtain r m' where a: "snd (deleteMessage i u s) = s\<lparr>heap := (heap s)(r := m')\<rparr>"
      "replies m' = replies (heap s r)" "room m' = room (heap s r)" by blast
    from refs_ok_update[OF ok(1) a(2)] index_ok_update[OF ok(2) a(3)] a(1)
    show ?thesis by simp
  qed
next
  case (thread s n i m s')
  then have ok: "refs_ok s" "index_ok s" by simp_all
  from getMessageThread_snd[OF thread.hyps(2)] obtain h' where
    h': "s' = s\<lparr>heap := h'\<rparr>" "pruned (heap s) h'" by blast
  from refs_ok_pruned[OF ok(1) h'(2)] index_ok_pruned[OF ok(2) h'(2)] h'(1)
  show ?case by simp
qed

subsection \<open>The example threads\<close>

lemma store2_eq:
  "store2 = \<lparr>heap = (\<lambda>_. blank_message)
       (0 := \<lparr>id_m = ''m1'', username = ''alice'', text_m = ''hello'', time = ''9:00 am'',
              timestamp = 1000, room = ''room1'', edited = False, editHistory = [],
              deleted = False, parentId = None, replies = [1]\<rparr>,
        1 := \<lparr>id_m = ''m2'', username = ''bob'', text_m = ''reply'', time = ''9:01 am'',
              timestamp = 2000, room = ''room1'', edited = False, editHistory = [],
              deleted = False, parentId = Some ''m1'', replies = []\<rparr>),
     next_ref = 2, messages = [(''m1'', 0), (''m2'', 1)],
     messagesByRoom = [(''room1'', [''m1'', ''m2''])]\<rparr>"
  by (simp add: store2_def store1_eq env2_def eval_defs fun_upd_twist)

lemma store3_eq:
  "store3 = \<lparr>heap = (\<lambda>_. blank_message)
       (0 := \<lparr>id_m = ''m1'', username = ''alice'', text_m = ''hello'', time = ''9:00 am'',
              timestamp = 1000, room = ''room1'', edited = False, editHistory = [],
              deleted = False, parentId = None, replies = [1]\<rparr>,
        1 := \<lparr>id_m = ''m2'', username = ''bob'', text_m = ''reply'', time = ''9:01 am'',
              timestamp = 2000, room = ''room1'', edited = False, editHistory = [],
              deleted = False, parentId = Some ''m1'', replies = [2]\<rparr>,
        2 := \<lparr>id_m = ''m3'', username = ''carol'', text_m = ''nested'', time = ''9:02 am'',
              timestamp = 3000, room = ''room1'', edited = False, editHistory = [],
              deleted = False, parentId = Some ''m2'', replies = []\<rparr>),
     next_ref = 3, messages = [(''m1'', 0), (''m2'', 1), (''m3'', 2)],
     messagesByRoom = [(''room1'', [''m1'', ''m2'', ''m3''])]\<rparr>"
  by (simp add: store3_def store2_eq env3_def eval_defs fun_upd_twist)

lemma store2_deleted_eq:
  "store2_deleted = \<lparr>heap = (\<lambda>_. blank_message)
       (0 := \<lparr>id_m = ''m1'', username = ''alice'', text_m = ''hello'', time = ''9:00 am'',
              timestamp = 1000, room = ''room1'', edited = False, editHistory = [],
              deleted = False, parentId = None, replies = [1]\<rparr>,
        1 := \<lparr>id_m = ''m2'', username = ''bob'', text_m = ''[Message deleted]'', time = ''9:01 am'',
              timestamp = 2000, room = ''room1'', edited = False, editHistory = [],
              deleted = True, parentId = Some ''m1'', replies = []\<rparr>),
     next_ref = 2, messages = [(''m1'', 0), (''m2'', 1)],
     messagesByRoom = [(''room1'', [''m1'', ''m2''])]\<rparr>"
  by (simp add: store2_deleted_def store2_eq eval_defs)

lemma store3_deleted_eq:
  "store3_deleted = \<lparr>heap = (\<lambda>_. blank_message)
       (0 := \<lparr>id_m = ''m1'', username = ''alice'', text_m = ''hello'', time = ''9:00 am'',
              timestamp = 1000, room = ''room1'', edited = False, editHistory = [],
              deleted = False, parentId = None, replies = [1]\<rparr>,
        1 := \<lparr>id_m = ''m2'', username = ''bob'', text_m = ''reply'', time = ''9:01 am'',
              timestamp = 2000, room = ''room1'', edited = False, editHistory = [],
              deleted = False, parentId = Some ''m1'', replies = [2]\<rparr>,
        2 := \<lparr>id_m = ''m3'', username = ''carol'', text_m = ''[Message deleted]'', time = ''9:02 am'',
              timestamp = 3000, room = ''room1'', edited = False, editHistory = [],
              deleted = True, parentId = Some ''m2'', replies = []\<rparr>),
     next_ref = 3, messages = [(''m1'', 0), (''m2'', 1), (''m3'', 2)],
     messagesByRoom = [(''room1'', [''m1'', ''m2'', ''m3''])]\<rparr>"
  by (simp add: store3_deleted_def store3_eq eval_defs)

lemma reachable_store1: "reachable store1"
  unfolding store1_def
  by (rule reachable.add[OF reachable.start]) (simp add: new_repository_def has_def)

lemma reachable_store2: "reachable store2"
  unfolding store2_def
  by (rule reachable.add[OF reachable_store1]) (simp add: store1_eq env2_def has_def)

lemma reachable_store3: "reachable store3"
  unfolding store3_def
  by (rule reachable.add[OF reachable_store2]) (simp add: store2_eq env3_def has_def)

lemma reachable_store2_deleted: "reachable store2_deleted"
  unfolding store2_deleted_def by (rule reachable.delete[OF reachable_store2])

lemma reachable_store3_deleted: "reachable store3_deleted"
  unfolding store3_deleted_def by (rule reachable.delete[OF reachable_store3])

text \<open>
  The claim C3 as stated fails on a message whose only reply is deleted: it has no
  reply that is not deleted, and its depth is 1.
\<close>

theorem getThreadDepth_deleted_replies_counterexample:
  "getMessage store2_deleted ''m1'' = Some 0
   \<and> filter (\<lambda>c. \<not> deleted (heap store2_deleted c)) (replies (heap store2_deleted 0)) = []
   \<and> getThreadDepth 2 store2_deleted ''m1'' = Some 1"
  by (simp add: getThreadDepth_def getMessage_def store2_deleted_eq numeral_2_eq_2)

theorem getThreadDepth_spec_witness:
  "refs_ok store3 \<and> next_ref store3 \<le> 3
   \<and> getThreadDepth 3 store3 ''m1'' = Some 2
   \<and> getThreadDepth 3 store3 ''m3'' = Some 0
   \<and> getThreadDepth 3 store3 ''m9'' = Some (- 1)
   \<and> getMessage store3 ''m9'' = None"
proof -
  have ok: "refs_ok store3" using reachable_ok[OF reachable_store3] by simp
  have n: "next_ref store3 \<le> 3" by (simp add: store3_eq)
  have a: "getThreadDepth 3 store3 ''m1'' = Some 2" "getThreadDepth 3 store3 ''m3'' = Some 0"
    by (simp_all add: getThreadDepth_def store3_eq numeral_3_eq_3)
  have b: "getMessage store3 ''m9'' = None" by (simp add: getMessage_def store3_eq)
  from getThreadDepth_spec[OF ok n, of "''m9''"] b
  have "getThreadDepth 3 store3 ''m9'' = Some (- 1)" by simp
  with ok n a b show ?thesis by simp
qed

subsection \<open>The room listing\<close>

lemma addMessage_Inr:
  assumes "addMessage e u t rm pid s = (Inr m, s')"
  shows "m = next_ref s \<and> s' = added e u t rm pid s \<and> checkRep s' = None
    \<and> (truthy pid \<longrightarrow> has (messages s) (the pid))"
  using assms by (auto simp: addMessage_def split: if_splits option.splits)

text \<open>
  Claim C10. In a repository in which the two invariants hold, let \<open>addMessage\<close> with
  a fresh id and the non-empty parent id \<open>pid\<close> return the message \<open>m\<close>. Then \<open>m\<close> is
  stored under its id with \<open>parentId = pid\<close>, it is the last element of its parent's
  \<open>replies\<close>, and it is an element of \<open>getMessagesForRoom\<close> of its room as well. For
  every room, \<open>getMessagesForRoom\<close> returns exactly the stored messages of that room
  that are not deleted, replies included.
\<close>

theorem reply_in_room_listing:
  assumes ok: "refs_ok s" "index_ok s" and fresh: "\<not> has (messages s) (generateId e)"
    and pid: "pid \<noteq> []" and add: "addMessage e u t rm (Some pid) s = (Inr m, s')"
  shows "\<exists>p. getMessage s pid = Some p \<and> getMessage s' pid = Some p
       \<and> replies (heap s' p) = replies (heap s p) @ [m]
       \<and> getMessage s' (generateId e) = Some m \<and> parentId (heap s' m) = Some pid
       \<and> m \<in> set (getMessagesForRoom s' rm)
       \<and> (\<forall>rm'. set (getMessagesForRoom s' rm')
             = {r. \<exists>i. getMessage s' i = Some r \<and> room (heap s' r) = rm' \<and> \<not> deleted (heap s' r)})"
proof -
  have tr: "truthy (Some pid)" using pid by (simp add: truthy_def)
  from fresh have fr: "map_of (messages s) (generateId e) = None" by (simp add: has_def)
  from addMessage_Inr[OF add] tr have m: "m = next_ref s" and s': "s' = added e u t rm (Some pid) s"
    and par: "truthy (Some pid) \<longrightarrow> has (messages s) (the (Some pid))" by simp_all
  from par tr obtain p where p: "map_of (messages s) pid = Some p" by (auto simp: has_def)
  with fr have ne: "generateId e \<noteq> pid" by auto
  from refs_ok_index[OF ok(1) p] have pm: "p \<noteq> next_ref s" by simp
  have hp: "heap s' = (let h1 = (heap s)(next_ref s := make_message e u t rm (Some pid))
      in h1(p := (h1 p)\<lparr>replies := replies (h1 p) @ [next_ref s]\<rparr>))"
    unfolding s' by (rule added_heap_reply) (use tr p ne in simp_all)
  have msgs: "map_of (messages s') = (map_of (messages s))(generateId e \<mapsto> m)"
    by (simp add: s' added_fields map_of_update m)
  have rooms: "map_of (messagesByRoom s') rm = Some (set_add (generateId e)
      (case map_of (messagesByRoom s) rm of None \<Rightarrow> [] | Some ids \<Rightarrow> ids))"
    by (simp add: s' added_fields map_of_update)
  have hm: "heap s' m = make_message e u t rm (Some pid)"
    using pm by (simp add: hp m Let_def)
  have 1: "getMessage s pid = Some p" using p by (simp add: getMessage_def)
  have 2: "getMessage s' pid = Some p" using p ne by (simp add: getMessage_def msgs)
  have 3: "replies (heap s' p) = replies (heap s p) @ [m]" using pm by (simp add: hp m Let_def)
  have 4: "getMessage s' (generateId e) = Some m" by (simp add: getMessage_def msgs)
  have 5: "parentId (heap s' m) = Some pid" by (simp add: hm make_message_def)
  have 6: "m \<in> set (getMessagesForRoom s' rm)"
    unfolding set_getMessagesForRoom
    using rooms by (auto simp: msgs set_set_add hm make_message_def)
  have ok': "index_ok s'"
    unfolding s' by (rule index_ok_added[OF ok fr par])
  have 7: "\<forall>rm'. set (getMessagesForRoom s' rm')
             = {r. \<exists>i. getMessage s' i = Some r \<and> room (heap s' r) = rm' \<and> \<not> deleted (heap s' r)}"
    using getMessagesForRoom_complete[OF ok'] by (simp add: getMessage_def)
  from 1 2 3 4 5 6 7 show ?thesis by blast
qed

theorem reply_in_room_listing_witness:
  "refs_ok store1 \<and> index_ok store1 \<and> \<not> has (messages store1) (generateId env2)
   \<and> addMessage env2 ''bob'' ''reply'' ''room1'' (Some ''m1'') store1 = (Inr 1, store2)
   \<and> getMessage store2 ''m1'' = Some 0 \<and> replies (heap store2 0) = [1]
   \<and> getMessage store2 ''m2'' = Some 1
   \<and> getMessagesForRoom store2 ''room1'' = [0, 1]"
proof -
  have ok: "refs_ok store1" "index_ok store1" using reachable_ok[OF reachable_store1] by simp_all
  have fresh: "\<not> has (messages store1) (generateId env2)"
    by (simp add: store1_eq env2_def has_def)
  have add: "addMessage env2 ''bob'' ''reply'' ''room1'' (Some ''m1'') store1 = (Inr 1, store2)"
    by (simp add: store2_def store1_eq env2_def eval_defs)
  have l: "getMessagesForRoom store2 ''room1'' = [0, 1]"
    by (simp add: getMessagesForRoom_def store2_eq List.map_filter_simps lookup_live_def)
  from reply_in_room_listing[OF ok fresh _ add] have "1 \<in> set (getMessagesForRoom store2 ''room1'')"
    by auto
  with ok fresh add l show ?thesis by (simp add: getMessage_def store2_eq)
qed


subsection \<open>Rendering a thread\<close>

text \<open>
  Claim C2 at \<open>getMessageThread('m1')\<close> on the thread of three whose last message \<open>m3\<close>
  is deleted. The copy returned has the reply \<open>m2\<close>. The stored \<open>m2\<close>, whose \<open>replies\<close>
  held the deleted \<open>m3\<close> before the call, has an empty \<open>replies\<close> array after it:
  the call has written to the store, and \<open>getThreadDepth('m2')\<close>, which was 1, is 0
  now. \<open>m3\<close> is still in the index.
\<close>

theorem getMessageThread_mutates:
  "replies (heap store3_deleted 1) = [2] \<and> deleted (heap store3_deleted 2)
   \<and> getMessage store3_deleted ''m2'' = Some 1
   \<and> getThreadDepth 3 store3_deleted ''m2'' = Some 1
   \<and> map_option (\<lambda>(thread, s'). (map_option replies thread, getMessage s' ''m2'',
                                     replies (heap s' 1), getMessage s' ''m3'', deleted (heap s' 2),
                                     getThreadDepth 3 s' ''m2''))
        (getMessageThread 3 store3_deleted ''m1'')
       = Some (Some [1], Some 1, [], Some 2, True, Some 0)"
  by (simp add: getMessageThread_def getMessage_def getThreadDepth_def store3_deleted_eq
      numeral_3_eq_3 Let_def)

subsection \<open>Search\<close>

text \<open>
  Claim C1 at the thread of the repository's search test: \<open>searchMessages('Reply',
  'room1')\<close> returns ten results, each of the five replies twice. A reply is found once
  below the root and once more as an element of \<open>getMessagesForRoom\<close>, from which
  the search starts again.
\<close>

theorem searchMessages_finds_replies_twice:
  "searchMessages 3 store21 ''Reply'' ''room1'' = Some [1, 5, 9, 13, 17, 1, 5, 9, 13, 17]"
  by code_simp

section \<open>Properties of the command parser\<close>

text \<open>
  Claim C7. \<open>parse('/edit 123 "multi word text"')\<close> yields the type \<open>edit\<close> with the
  arguments \<open>123\<close> and \<open>multi word text\<close>; \<open>parse('')\<close> and \<open>parse('/')\<close> yield the
  type \<open>unknown\<close> with no arguments; \<open>parse(null)\<close> throws the precondition error and
  returns nothing.
\<close>

theorem parse_examples:
  "parse (Some edit_command)
     = Inr \<lparr>ctype = ''edit'', args = [''123'', ''multi word text''], raw = edit_command\<rparr>
   \<and> parse (Some []) = Inr \<lparr>ctype = ''unknown'', args = [], raw = []\<rparr>
   \<and> parse (Some ''/'') = Inr \<lparr>ctype = ''unknown'', args = [], raw = ''/''\<rparr>
   \<and> parse None = Inl (Error ''Precondition violated: input cannot be null or undefined'')"
proof -
  have a: "parse (Some edit_command)
     = Inr \<lparr>ctype = ''edit'', args = [''123'', ''multi word text''], raw = edit_command\<rparr>"
    by code_simp
  have b: "parse (Some []) = Inr \<lparr>ctype = ''unknown'', args = [], raw = []\<rparr>"
    by code_simp
  have c: "parse (Some ''/'') = Inr \<lparr>ctype = ''unknown'', args = [], raw = ''/''\<rparr>"
    by code_simp
  have d: "parse None = Inl (Error ''Precondition violated: input cannot be null or undefined'')"
    by (simp add: parse_def)
  from a b c d show ?thesis by simp
qed

section \<open>Properties of the moderation rule language\<close>

lemma parseCondition_msg_equals_123:
  "parseCondition msg_equals_123
     = Some \<lparr>field = ''message'', operator = ''equals'', cvalue = Num 123\<rparr>"
  by code_simp

text \<open>
  Claim C8, as the code has it. A condition with one of the operators \<open>>\<close>, \<open><\<close>,
  \<open>>=\<close>, \<open><=\<close> holds only when its field resolves to a number, one with \<open>contains\<close>
  or \<open>matches\<close> only when its field resolves to a string. \<open>equals\<close> compares with
  \<open>===\<close>: it holds exactly when the field resolves to the very value of the rule,
  type included, and nothing is coerced. So \<open>equals\<close> never holds between a string
  field and a rule value that \<open>parseCondition\<close> has turned into a number; the
  condition \<open>message equals "123"\<close>, whose value is the number 123, is false of the
  message \<open>123\<close>.
\<close>

theorem evaluateCondition_types:
  "(operator c \<in> {''>'', ''<'', ''>='', ''<=''} \<and> evaluateCondition js c m u
      \<longrightarrow> (\<exists>n. fieldValue (field c) m u = Some (Num n)))
   \<and> (operator c \<in> {''contains'', ''matches''} \<and> evaluateCondition js c m u
      \<longrightarrow> (\<exists>s. fieldValue (field c) m u = Some (Str s)))
   \<and> (operator c = ''equals''
      \<longrightarrow> evaluateCondition js c m u = (fieldValue (field c) m u = Some (condValue c)))
   \<and> (operator c = ''equals'' \<and> (\<exists>n. cvalue c = Num n)
        \<and> field c \<in> {''message'', ''user'', ''username''}
      \<longrightarrow> \<not> evaluateCondition js c m u)
   \<and> parseCondition msg_equals_123
       = Some \<lparr>field = ''message'', operator = ''equals'', cvalue = Num 123\<rparr>
   \<and> \<not> evaluateCondition js \<lparr>field = ''message'', operator = ''equals'', cvalue = Num 123\<rparr>
         ''123'' u"
proof -
  have a: "operator c \<in> {''>'', ''<'', ''>='', ''<=''} \<and> evaluateCondition js c m u
      \<longrightarrow> (\<exists>n. fieldValue (field c) m u = Some (Num n))"
    by (auto simp: evaluateCondition_def compareNumber_def Let_def
        split: option.splits jsvalue.splits)
  have b: "operator c \<in> {''contains'', ''matches''} \<and> evaluateCondition js c m u
      \<longrightarrow> (\<exists>s. fieldValue (field c) m u = Some (Str s))"
    by (auto simp: evaluateCondition_def Let_def split: option.splits jsvalue.splits)
  have c: "operator c = ''equals''
      \<longrightarrow> evaluateCondition js c m u = (fieldValue (field c) m u = Some (condValue c))"
    by (auto simp: evaluateCondition_def Let_def split: option.splits)
  have d: "operator c = ''equals'' \<and> (\<exists>n. cvalue c = Num n)
        \<and> field c \<in> {''message'', ''user'', ''username''}
      \<longrightarrow> \<not> evaluateCondition js c m u"
    by (auto simp: evaluateCondition_def fieldValue_def condValue_def Let_def)
  have e: "\<not> evaluateCondition js \<lparr>field = ''message'', operator = ''equals'', cvalue = Num 123\<rparr>
         ''123'' u"
    by (simp add: evaluateCondition_def fieldValue_def condValue_def)
  from a b c d e parseCondition_msg_equals_123 show ?thesis by blast
qed

lemma evaluateCondition_word_count:
  "evaluateCondition host0 \<lparr>field = ''word_count'', operator = ''>'', cvalue = Num 5\<rparr>
     ''one two three four five six'' ''alice''"
  by code_simp

lemma evaluateCondition_contains:
  "evaluateCondition host0 \<lparr>field = ''message'', operator = ''contains'', cvalue = Str ''spam''\<rparr>
     ''This is spam'' ''alice''"
  by code_simp

lemma evaluateCondition_equals:
  "evaluateCondition host0 \<lparr>field = ''user'', operator = ''equals'', cvalue = Str ''baduser''\<rparr>
     ''any message'' ''baduser''"
  by code_simp

theorem evaluateCondition_types_witness:
  "evaluateCondition host0 \<lparr>field = ''word_count'', operator = ''>'', cvalue = Num 5\<rparr>
     ''one two three four five six'' ''alice''
   \<and> (\<exists>n. fieldValue ''word_count'' ''one two three four five six'' ''alice'' = Some (Num n))
   \<and> evaluateCondition host0 \<lparr>field = ''message'', operator = ''contains'', cvalue = Str ''spam''\<rparr>
     ''This is spam'' ''alice''
   \<and> (\<exists>s. fieldValue ''message'' ''This is spam'' ''alice'' = Some (Str s))
   \<and> evaluateCondition host0 \<lparr>field = ''user'', operator = ''equals'', cvalue = Str ''baduser''\<rparr>
     ''any message'' ''baduser''
   \<and> fieldValue ''user'' ''any message'' ''baduser'' = Some (Str ''baduser'')
   \<and> \<not> evaluateCondition host0 \<lparr>field = ''message'', operator = ''equals'', cvalue = Num 123\<rparr>
         ''123'' ''alice''"
proof -
  note w = evaluateCondition_types[of "\<lparr>field = ''word_count'', operator = ''>'', cvalue = Num 5\<rparr>"
      host0 "''one two three four five six''" "''alice''"]
  note c = evaluateCondition_types[of
      "\<lparr>field = ''message'', operator = ''contains'', cvalue = Str ''spam''\<rparr>"
      host0 "''This is spam''" "''alice''"]
  note e = evaluateCondition_types[of
      "\<lparr>field = ''user'', operator = ''equals'', cvalue = Str ''baduser''\<rparr>"
      host0 "''any message''" "''baduser''"]
  have l: "toLowerCase ''baduser'' = ''baduser''" by code_simp
  from w evaluateCondition_word_count
  have 1: "\<exists>n. fieldValue ''word_count'' ''one two three four five six'' ''alice'' = Some (Num n)"
    by simp
  from c evaluateCondition_contains
  have 2: "\<exists>s. fieldValue ''message'' ''This is spam'' ''alice'' = Some (Str s)"
    by simp
  from e evaluateCondition_equals
  have 3: "fieldValue ''user'' ''any message'' ''baduser'' = Some (Str ''baduser'')"
    by (simp add: condValue_def l)
  from w have 4: "\<not> evaluateCondition host0
      \<lparr>field = ''message'', operator = ''equals'', cvalue = Num 123\<rparr> ''123'' ''alice''"
    by blast
  from 1 2 3 4 evaluateCondition_word_count evaluateCondition_contains evaluateCondition_equals
  show ?thesis by blast
qed

text \<open>
  The claim as stated fails: the condition \<open>message equals "123"\<close> is parsed to the
  number 123, and it does not hold of the message whose text is \<open>123\<close>.
\<close>

theorem equals_is_strict_counterexample:
  "parseCondition msg_equals_123
     = Some \<lparr>field = ''message'', operator = ''equals'', cvalue = Num 123\<rparr>
   \<and> \<not> evaluateCondition host0 \<lparr>field = ''message'', operator = ''equals'', cvalue = Num 123\<rparr>
         ''123'' ''alice''"
proof -
  have "\<not> evaluateCondition host0 \<lparr>field = ''message'', operator = ''equals'', cvalue = Num 123\<rparr>
         ''123'' ''alice''"
    by code_simp
  with parseCondition_msg_equals_123 show ?thesis by simp
qed

section \<open>Properties of the user registry\<close>

lemma update_absent: "map_of al k = None \<Longrightarrow> AList.update k v al = al @ [(k, v)]"
  by (induction al) (auto split: if_splits)

lemma delete_filter: "AList.delete k al = filter (\<lambda>p. fst p \<noteq> k) al"
  by (induction al) auto

lemma checkRep_users_loop_None:
  "checkRep_users_loop ids names us = None \<longleftrightarrow>
     distinct (map fst us) \<and> set (map fst us) \<inter> set ids = {}
     \<and> distinct (map lowerName us) \<and> set (map lowerName us) \<inter> set names = {}
     \<and> (\<forall>p \<in> set us. room_u (snd p) \<noteq> [])"
  by (induction ids names us rule: checkRep_users_loop.induct)
     (auto simp: lowerName_def split: if_splits)

lemma registry_ok_checkRep: "registry_ok s \<Longrightarrow> checkRep_users s = None"
  by (auto simp: registry_ok_def checkRep_users_def checkRep_users_loop_None split: option.splits)

lemma registry_ok_new: "registry_ok new_userRepository"
  by (simp add: registry_ok_def new_userRepository_def)

lemma has_users: "has us i \<longleftrightarrow> i \<in> fst ` set us"
  by (simp add: has_def map_of_eq_None_iff)

lemma has_index: "has (map index_entry us) k \<longleftrightarrow> k \<in> lowerName ` set us"
  by (auto simp: has_def map_of_eq_None_iff index_entry_def image_iff)

lemma userJoin_ok:
  fixes rl :: role
  assumes ok: "registry_ok s" and pre: "i \<noteq> []" "uname \<noteq> []" "rm \<noteq> []" "\<not> has (users s) i"
    and free: "\<not> has (usernameIndex s) (toLowerCase uname)"
  defines "u \<equiv> \<lparr>id_u = i, username_u = uname, room_u = rm, role = rl, muted = False, banned = False\<rparr>"
  defines "s' \<equiv> \<lparr>users = users s @ [(i, u)], usernameIndex = usernameIndex s @ [(toLowerCase uname, i)]\<rparr>"
  shows "userJoin i uname rm rl s = (Inr \<lparr>error_r = None, user_r = Some u\<rparr>, s') \<and> registry_ok s'"
proof -
  have idx: "usernameIndex s = map index_entry (users s)" using ok by (simp add: registry_ok_def)
  have a: "map_of (users s) i = None" "map_of (usernameIndex s) (toLowerCase uname) = None"
    using pre free by (simp_all add: has_def)
  have b: "i \<notin> fst ` set (users s)"
    using pre(4) by (simp add: has_users)
  have b': "toLowerCase uname \<notin> lowerName ` set (users s)"
    using free unfolding idx has_index .
  have ok': "registry_ok s'"
    using ok b b' pre(3) by (simp add: registry_ok_def s'_def u_def index_entry_def lowerName_def)
  have "s\<lparr>users := AList.update i u (users s),
          usernameIndex := AList.update (toLowerCase uname) i (usernameIndex s)\<rparr> = s'"
    by (simp add: s'_def update_absent a)
  then have "userJoin i uname rm rl s = (Inr \<lparr>error_r = None, user_r = Some u\<rparr>, s')"
    using pre free registry_ok_checkRep[OF ok'] by (simp add: userJoin_def Let_def u_def)
  with ok' show ?thesis by simp
qed

lemma userJoin_taken:
  assumes "i \<noteq> []" "uname \<noteq> []" "rm \<noteq> []" "\<not> has (users s) i"
    and "has (usernameIndex s) (toLowerCase uname)"
  shows "userJoin i uname rm rl s
           = (Inr \<lparr>error_r = Some ''Username is already taken'', user_r = None\<rparr>, s)"
  using assms by (simp add: userJoin_def)

lemma filter_distinct_key:
  assumes "distinct (map f xs)" and "x \<in> set xs"
  shows "filter (\<lambda>p. f p \<noteq> f x) xs = filter (\<lambda>p. p \<noteq> x) xs"
proof (rule filter_cong[OF refl])
  fix p assume "p \<in> set xs"
  with assms show "(f p \<noteq> f x) = (p \<noteq> x)"
    by (auto simp: distinct_map dest: inj_onD)
qed

lemma userLeave_ok:
  assumes ok: "registry_ok s" and u: "map_of (users s) i = Some u"
  defines "us' \<equiv> filter (\<lambda>p. fst p \<noteq> i) (users s)"
  defines "s' \<equiv> \<lparr>users = us', usernameIndex = map index_entry us'\<rparr>"
  shows "userLeave i s = (Inr (Some u), s') \<and> registry_ok s'"
proof -
  have idx: "usernameIndex s = map index_entry (users s)"
    and d1: "distinct (map fst (users s))" and d2: "distinct (map lowerName (users s))"
    using ok by (simp_all add: registry_ok_def)
  have mem: "(i, u) \<in> set (users s)" using u by (rule map_of_SomeD)
  have e1: "us' = filter (\<lambda>p. p \<noteq> (i, u)) (users s)"
    using filter_distinct_key[OF d1 mem] by (simp add: us'_def)
  have e2: "filter (\<lambda>p. lowerName p \<noteq> toLowerCase (username_u u)) (users s) = us'"
    using filter_distinct_key[OF d2 mem] by (simp add: e1 lowerName_def)
  have f1: "AList.delete (toLowerCase (username_u u)) (usernameIndex s) = map index_entry us'"
    by (simp add: delete_filter idx filter_map comp_def index_entry_def e2)
  have ok': "registry_ok s'"
    using ok by (simp add: registry_ok_def s'_def us'_def distinct_map_filter)
  have "s\<lparr>users := AList.delete i (users s),
          usernameIndex := AList.delete (toLowerCase (username_u u)) (usernameIndex s)\<rparr> = s'"
    by (simp add: s'_def f1) (simp add: delete_filter us'_def)
  then have "userLeave i s = (Inr (Some u), s')"
    using u registry_ok_checkRep[OF ok'] by (simp add: userLeave_def Let_def)
  with ok' show ?thesis by simp
qed

lemma userJoin_preserves: "registry_ok s \<Longrightarrow> registry_ok (snd (userJoin i uname rm rl s))"
proof -
  assume ok: "registry_ok s"
  show ?thesis
  proof (cases "i \<noteq> [] \<and> uname \<noteq> [] \<and> rm \<noteq> [] \<and> \<not> has (users s) i
                \<and> \<not> has (usernameIndex s) (toLowerCase uname)")
    case True
    with userJoin_ok[OF ok, of i uname rm rl] show ?thesis by simp
  next
    case False
    then have "snd (userJoin i uname rm rl s) = s" by (auto simp: userJoin_def)
    with ok show ?thesis by simp
  qed
qed

lemma userLeave_preserves: "registry_ok s \<Longrightarrow> registry_ok (snd (userLeave i s))"
proof (cases "map_of (users s) i")
  case None
  then have "snd (userLeave i s) = s" by (simp add: userLeave_def)
  then show "registry_ok s \<Longrightarrow> ?thesis" by simp
next
  case (Some u)
  assume "registry_ok s"
  from userLeave_ok[OF this Some] show ?thesis by simp
qed

lemma registry_ok_length: "registry_ok s \<Longrightarrow> length (users s) = length (usernameIndex s)"
  by (simp add: registry_ok_def)

lemma lower_Bob: "toLowerCase ''Bob'' = ''bob''" "toLowerCase ''bob'' = ''bob''"
  by code_simp+

theorem username_unique:
  assumes ok: "registry_ok s" and ids: "s1 \<noteq> []" "s2 \<noteq> []" "s1 \<noteq> s2"
    and new: "\<not> has (users s) s1" "\<not> has (users s) s2" "\<not> has (usernameIndex s) ''bob''"
  shows "\<exists>u1 u2 sA sB sC.
      userJoin s1 ''Bob'' ''r1'' User s = (Inr \<lparr>error_r = None, user_r = Some u1\<rparr>, sA)
    \<and> userJoin s2 ''bob'' ''r1'' User sA
        = (Inr \<lparr>error_r = Some ''Username is already taken'', user_r = None\<rparr>, sA)
    \<and> userLeave s1 sA = (Inr (Some u1), sB)
    \<and> userJoin s2 ''bob'' ''r1'' User sB = (Inr \<lparr>error_r = None, user_r = Some u2\<rparr>, sC)
    \<and> id_u u1 = s1 \<and> username_u u1 = ''Bob'' \<and> id_u u2 = s2 \<and> username_u u2 = ''bob''
    \<and> getCurrentUser sA s2 = None \<and> getCurrentUser sC s2 = Some u2
    \<and> length (users sA) = length (usernameIndex sA)
    \<and> length (users sB) = length (usernameIndex sB)
    \<and> length (users sC) = length (usernameIndex sC)"
proof -
  define u1 where "u1 = \<lparr>id_u = s1, username_u = ''Bob'', room_u = ''r1'', role = User,
                          muted = False, banned = False\<rparr>"
  define u2 where "u2 = \<lparr>id_u = s2, username_u = ''bob'', room_u = ''r1'', role = User,
                          muted = False, banned = False\<rparr>"
  define sA where "sA = \<lparr>users = users s @ [(s1, u1)], usernameIndex = usernameIndex s @ [(''bob'', s1)]\<rparr>"
  define sC where "sC = \<lparr>users = users s @ [(s2, u2)], usernameIndex = usernameIndex s @ [(''bob'', s2)]\<rparr>"
  have n1: "map_of (users s) s1 = None" and n2: "map_of (users s) s2 = None"
    using new by (simp_all add: has_def)
  have idx: "usernameIndex s = map index_entry (users s)" using ok by (simp add: registry_ok_def)
  have j1: "userJoin s1 ''Bob'' ''r1'' User s = (Inr \<lparr>error_r = None, user_r = Some u1\<rparr>, sA)"
    and okA: "registry_ok sA"
    using userJoin_ok[OF ok ids(1) _ _ new(1), of "''Bob''" "''r1''" User] new(3)
    by (simp_all add: lower_Bob u1_def sA_def)
  have j2: "userJoin s2 ''bob'' ''r1'' User sA
        = (Inr \<lparr>error_r = Some ''Username is already taken'', user_r = None\<rparr>, sA)"
    by (rule userJoin_taken) (use ids n2 in \<open>auto simp add: sA_def has_def lower_Bob map_add_def split: option.splits\<close>)
  have m1: "map_of (users sA) s1 = Some u1" by (simp add: sA_def n1 map_add_def)
  have fil: "filter (\<lambda>p. fst p \<noteq> s1) (users sA) = users s"
    using n1 by (auto simp: sA_def map_of_eq_None_iff intro!: filter_True)
  have l1: "userLeave s1 sA = (Inr (Some u1), s)"
    using userLeave_ok[OF okA m1] by (simp add: fil idx[symmetric])
  have j3: "userJoin s2 ''bob'' ''r1'' User s = (Inr \<lparr>error_r = None, user_r = Some u2\<rparr>, sC)"
    and okC: "registry_ok sC"
    using userJoin_ok[OF ok ids(2) _ _ new(2), of "''bob''" "''r1''" User] new(3)
    by (simp_all add: lower_Bob u2_def sC_def)
  have g: "getCurrentUser sA s2 = None" "getCurrentUser sC s2 = Some u2"
    using ids n2 by (simp_all add: getCurrentUser_def sA_def sC_def map_add_def)
  show ?thesis
    using j1 j2 l1 j3 g registry_ok_length[OF ok] registry_ok_length[OF okA] registry_ok_length[OF okC]
    by (intro exI[of _ u1] exI[of _ u2] exI[of _ sA] exI[of _ s] exI[of _ sC])
       (simp add: u1_def u2_def)
qed

theorem username_unique_witness:
  "registry_ok new_userRepository
   \<and> (\<exists>u1 u2 sA sB sC.
      userJoin ''s1'' ''Bob'' ''r1'' User new_userRepository
        = (Inr \<lparr>error_r = None, user_r = Some u1\<rparr>, sA)
    \<and> userJoin ''s2'' ''bob'' ''r1'' User sA
        = (Inr \<lparr>error_r = Some ''Username is already taken'', user_r = None\<rparr>, sA)
    \<and> userLeave ''s1'' sA = (Inr (Some u1), sB)
    \<and> userJoin ''s2'' ''bob'' ''r1'' User sB = (Inr \<lparr>error_r = None, user_r = Some u2\<rparr>, sC)
    \<and> length (users sA) = length (usernameIndex sA)
    \<and> length (users sB) = length (usernameIndex sB)
    \<and> length (users sC) = length (usernameIndex sC))"
proof -
  have h: "''s1'' \<noteq> []" "''s2'' \<noteq> []" "''s1'' \<noteq> ''s2''"
    "\<not> has (users new_userRepository) ''s1''" "\<not> has (users new_userRepository) ''s2''"
    "\<not> has (usernameIndex new_userRepository) ''bob''"
    by (simp_all add: new_userRepository_def has_def)
  from username_unique[OF registry_ok_new h] registry_ok_new show ?thesis by blast
qed

end
